theory Spec2Isabelle
  imports Complex_Main "HOL-Library.AList" "HOL-Library.Multiset"
begin

section \<open>Frame ingestion: class WebRTCService\<close>

text \<open>
  JavaScript numbers are modelled by unbounded integers (identifiers, counters, millisecond
  timestamps) and by the reals (scores, coordinates, latencies); IEEE rounding is not part of
  the model. A promise is modelled by its outcome, a value of \<open>error + 'a\<close>: \<open>Inl\<close> is a
  rejection or a throw, \<open>Inr\<close> the resolved value. Where two objects of the source have a
  field of the same name, or a name is a constant of HOL, the field carries a suffix
  (\<open>id_t\<close>, \<open>label_t\<close> of a track, \<open>bbox_r\<close> of a raw detection, \<open>min_l\<close> of the statistics).
\<close>

datatype error = TypeError | InferenceError

record frame =
  frameId :: nat
  imageData :: string
  captureTs :: int
  recvTs :: int
  queuedTs :: int

text \<open>
  A box has the four coordinates; a detection extends it with label and score. The coordinate
  type is a parameter: the tracker computes on numbers, whereas the result record built by
  \<open>processNextFrame\<close> reads \<open>det.bbox[i]\<close>, which is \<open>undefined\<close> (here \<open>None\<close>) when the
  array is too short.
\<close>

record 'n box =
  xmin :: 'n
  ymin :: 'n
  xmax :: 'n
  ymax :: 'n

record 'n detection = "'n box" +
  label :: string
  score :: 'n

text \<open>What the inference back ends return: \<open>{ label, score, bbox: [..] }\<close>.\<close>

record raw_detection =
  label_r :: string
  score_r :: real
  bbox_r :: "real list"

record result =
  frame_id :: nat
  capture_ts :: int
  recv_ts :: int
  inference_ts :: int
  detections :: "real option detection list"

record webrtc_service =
  frameQueue :: "frame list"
  isProcessing :: bool

text \<open>\<open>config.INFERENCE.maxQueueSize = envConfig.inference?.maxQueueSize || 5\<close>: a missing
  value and the falsy value 0 both give 5.\<close>

definition config_maxQueueSize :: "int option \<Rightarrow> int" where
  "config_maxQueueSize v = (case v of None \<Rightarrow> 5 | Some k \<Rightarrow> if k = 0 then 5 else k)"

text \<open>Array indexing \<open>a[i]\<close>: \<open>undefined\<close> out of range.\<close>

definition js_index :: "'a list \<Rightarrow> nat \<Rightarrow> 'a option" where
  "js_index xs i = (if i < length xs then Some (xs ! i) else None)"

text \<open>The constructor: empty queue, not processing.\<close>

definition new_webrtc_service :: webrtc_service where
  "new_webrtc_service = \<lparr> frameQueue = [], isProcessing = False \<rparr>"

text \<open>
  \<open>processNextFrame\<close> runs synchronously up to \<open>await detectObjects(frame.imageData)\<close>:
  nothing when the queue is empty; otherwise the flag is set, the last element is popped and
  the rest of the queue is cleared. The popped frame is the one handed to the Detector.
\<close>

definition processNextFrame_begin :: "webrtc_service \<Rightarrow> frame option \<times> webrtc_service" where
  "processNextFrame_begin s =
     (if length (frameQueue s) = 0 then (None, s)
      else (Some (last (frameQueue s)), s\<lparr> isProcessing := True, frameQueue := [] \<rparr>))"

text \<open>The mapping \<open>det => ({ label, score, xmin: det.bbox[0], ... })\<close>.\<close>

definition to_wire :: "raw_detection \<Rightarrow> real option detection" where
  "to_wire det =
     \<lparr> xmin = js_index (bbox_r det) 0, ymin = js_index (bbox_r det) 1,
       xmax = js_index (bbox_r det) 2, ymax = js_index (bbox_r det) 3,
       label = label_r det, score = Some (score_r det) \<rparr>"

text \<open>The rest of the \<open>try\<close> block, once the awaited call has settled with \<open>outcome\<close> at time
  \<open>inferenceTs\<close>: a rejection is a throw, a resolved list gives the result record.\<close>

definition processNextFrame_body ::
  "int \<Rightarrow> frame \<Rightarrow> error + raw_detection list \<Rightarrow> error + result" where
  "processNextFrame_body inferenceTs fr outcome =
     (case outcome of
        Inl e \<Rightarrow> Inl e
      | Inr dets \<Rightarrow>
          Inr \<lparr> frame_id = frameId fr, capture_ts = captureTs fr, recv_ts = recvTs fr,
                inference_ts = inferenceTs, detections = map to_wire dets \<rparr>)"

text \<open>\<open>catch\<close> turns a throw into \<open>null\<close>; \<open>finally\<close> clears the flag on both paths.\<close>

definition processNextFrame_end ::
  "int \<Rightarrow> frame \<Rightarrow> error + raw_detection list \<Rightarrow> webrtc_service \<Rightarrow> result option \<times> webrtc_service" where
  "processNextFrame_end inferenceTs fr outcome s =
     (case processNextFrame_body inferenceTs fr outcome of
        Inl e \<Rightarrow> (None, s\<lparr> isProcessing := False \<rparr>)
      | Inr r \<Rightarrow> (Some r, s\<lparr> isProcessing := False \<rparr>))"

text \<open>
  \<open>handlePhoneFrame\<close> up to its first suspension. When the queue length has reached
  \<open>maxQueueSize\<close> one element is shifted out; on an empty queue \<open>shift()\<close> gives \<open>undefined\<close>
  and reading \<open>dropped.frameId\<close> throws, which the \<open>catch\<close> rethrows. Then the frame is
  pushed, and \<open>processNextFrame\<close> is entered unless the flag is set. The value is the frame
  whose Detector call was started (if any) and the new service state.
\<close>

definition handlePhoneFrame ::
  "int \<Rightarrow> frame \<Rightarrow> webrtc_service \<Rightarrow> error + (frame option \<times> webrtc_service)" where
  "handlePhoneFrame maxQ fr s =
     (let shifted =
            (if maxQ \<le> int (length (frameQueue s))
             then (case frameQueue s of [] \<Rightarrow> Inl TypeError | dropped # rest \<Rightarrow> Inr rest)
             else Inr (frameQueue s))
      in case shifted of
           Inl e \<Rightarrow> Inl e
         | Inr q \<Rightarrow>
             (let s1 = s\<lparr> frameQueue := q @ [fr] \<rparr>
              in if \<not> isProcessing s1 then Inr (processNextFrame_begin s1)
                 else Inr (None, s1)))"

text \<open>A run of arrivals with no completion of the Detector in between; the first throw ends it.\<close>

fun enqueue_all :: "int \<Rightarrow> frame list \<Rightarrow> webrtc_service \<Rightarrow> error + webrtc_service" where
  "enqueue_all maxQ [] s = Inr s"
| "enqueue_all maxQ (fr # frs) s =
     (case handlePhoneFrame maxQ fr s of
        Inl e \<Rightarrow> Inl e
      | Inr (started, s') \<Rightarrow> enqueue_all maxQ frs s')"

text \<open>A whole call of \<open>processNextFrame\<close> against a Detector \<open>detect\<close>, the awaited call
  settling at \<open>ts\<close>. Arrivals during the wait only push on the queue, so the value returned
  does not depend on them.\<close>

definition processNextFrame ::
  "(string \<Rightarrow> error + raw_detection list) \<Rightarrow> int \<Rightarrow> webrtc_service \<Rightarrow> result option \<times> webrtc_service" where
  "processNextFrame detect ts s =
     (case processNextFrame_begin s of
        (None, s1) \<Rightarrow> (None, s1)
      | (Some fr, s1) \<Rightarrow> processNextFrame_end ts fr (detect (imageData fr)) s1)"

section \<open>The Detector entry point: InferenceService.detectObjects\<close>

text \<open>
  \<open>detectObjects\<close> chooses a back end by mode and wraps it in \<open>try/catch\<close>: whatever the back
  end throws is logged and the empty list is returned. The back end is the parameter
  \<open>infer\<close>.
\<close>

definition detectObjects ::
  "(string \<Rightarrow> error + raw_detection list) \<Rightarrow> string \<Rightarrow> error + raw_detection list" where
  "detectObjects infer img = (case infer img of Inl e \<Rightarrow> Inr [] | Inr dets \<Rightarrow> Inr dets)"

section \<open>Class MetricsService: counters and the sample window\<close>

record frame_metrics =
  frameId_m :: nat
  captureTs_m :: int
  recvTs_m :: int
  inferenceTs :: int
  displayTs :: int
  e2eLatency :: int
  serverLatency :: int
  networkLatency :: int
  detectionsCount :: nat

record metrics_service =
  frames :: "frame_metrics list"
  totalFrames :: nat
  processedFrames :: nat
  droppedFrames :: nat
  isCollecting :: bool

text \<open>The constructor zeroes the counters and calls \<open>startCollection\<close>.\<close>

definition new_metrics_service :: metrics_service where
  "new_metrics_service =
     \<lparr> frames = [], totalFrames = 0, processedFrames = 0, droppedFrames = 0, isCollecting = True \<rparr>"

text \<open>\<open>Array.prototype.slice(start)\<close> with one argument: a negative start counts from the
  end, and both are clamped to the array.\<close>

definition js_slice :: "int \<Rightarrow> 'a list \<Rightarrow> 'a list" where
  "js_slice start xs =
     (let n = int (length xs);
          k = (if start < 0 then max (n + start) 0 else min start n)
      in drop (nat k) xs)"

record config =
  maxQueueSize :: int
  targetFps :: int
  windowSize :: int

text \<open>\<open>recordFrame(frameResult)\<close> at time \<open>now\<close>; \<open>None\<close> is a \<open>null\<close> result.\<close>

definition recordFrame :: "config \<Rightarrow> int \<Rightarrow> result option \<Rightarrow> metrics_service \<Rightarrow> metrics_service" where
  "recordFrame cfg now frameResult m =
     (case frameResult of
        None \<Rightarrow> m
      | Some r \<Rightarrow>
          if \<not> isCollecting m then m
          else
            (let frameMetrics =
                   \<lparr> frameId_m = frame_id r, captureTs_m = capture_ts r, recvTs_m = recv_ts r,
                     inferenceTs = inference_ts r, displayTs = now,
                     e2eLatency = now - capture_ts r,
                     serverLatency = inference_ts r - recv_ts r,
                     networkLatency = recv_ts r - capture_ts r,
                     detectionsCount = length (detections r) \<rparr>;
                 m1 = m\<lparr> frames := frames m @ [frameMetrics],
                         processedFrames := processedFrames m + 1 \<rparr>;
                 maxFrames = windowSize cfg * targetFps cfg
             in if maxFrames < int (length (frames m1))
                then m1\<lparr> frames := js_slice (- maxFrames) (frames m1) \<rparr>
                else m1))"

definition recordDroppedFrame :: "metrics_service \<Rightarrow> metrics_service" where
  "recordDroppedFrame m = (if \<not> isCollecting m then m else m\<lparr> droppedFrames := droppedFrames m + 1 \<rparr>)"

definition recordTotalFrame :: "metrics_service \<Rightarrow> metrics_service" where
  "recordTotalFrame m = (if \<not> isCollecting m then m else m\<lparr> totalFrames := totalFrames m + 1 \<rparr>)"

section \<open>The server: socket handler, queue timer and settling Detector calls\<close>

text \<open>
  The event loop runs one callback at a time. The server state is the two services, the
  Detector calls that have been started and not yet settled (each with the caller that awaits
  it), and what has been broadcast as \<open>detection-result\<close>. The events are those that reach
  the \<open>WebRTCService\<close> of the running server; its \<open>cleanup\<close> method has no caller and is not
  one of them.
\<close>

datatype origin = PhoneStream | Timer

record server =
  webrtcService :: webrtc_service
  metricsService :: metrics_service
  pending :: "(frame \<times> origin) list"
  emitted :: "result option list"

datatype event =
    PhoneStreamMsg frame
  | TimerTick
  | DetectorSettled nat "error + raw_detection list" int int

definition new_server :: server where
  "new_server =
     \<lparr> webrtcService = new_webrtc_service, metricsService = new_metrics_service,
       pending = [], emitted = [] \<rparr>"

text \<open>
  \<open>PhoneStreamMsg\<close>: the \<open>phone-stream\<close> handler calls \<open>handlePhoneFrame\<close>; a throw goes to
  \<open>.catch\<close>, which only logs; a \<open>null\<close> returned at once (the service was busy) goes to
  \<open>.then\<close>, which broadcasts it and calls \<open>recordFrame(null)\<close>.
  \<open>TimerTick\<close>: the \<open>setInterval\<close> callback of \<open>startQueueProcessor\<close>; its result is dropped.
  \<open>DetectorSettled k outcome inferenceTs now\<close>: the \<open>k\<close>-th pending call settles; for a call
  awaited by the socket handler, \<open>.then\<close> broadcasts the result and records it at \<open>now\<close>.
\<close>

fun step :: "config \<Rightarrow> event \<Rightarrow> server \<Rightarrow> server" where
  "step cfg (PhoneStreamMsg fr) sv =
     (case handlePhoneFrame (maxQueueSize cfg) fr (webrtcService sv) of
        Inl e \<Rightarrow> sv
      | Inr (Some started, ws) \<Rightarrow>
          sv\<lparr> webrtcService := ws, pending := pending sv @ [(started, PhoneStream)] \<rparr>
      | Inr (None, ws) \<Rightarrow>
          sv\<lparr> webrtcService := ws, emitted := emitted sv @ [None],
              metricsService := recordFrame cfg (recvTs fr) None (metricsService sv) \<rparr>)"
| "step cfg TimerTick sv =
     (if \<not> isProcessing (webrtcService sv) \<and> 0 < length (frameQueue (webrtcService sv))
      then (case processNextFrame_begin (webrtcService sv) of
              (Some started, ws) \<Rightarrow>
                sv\<lparr> webrtcService := ws, pending := pending sv @ [(started, Timer)] \<rparr>
            | (None, ws) \<Rightarrow> sv\<lparr> webrtcService := ws \<rparr>)
      else sv)"
| "step cfg (DetectorSettled k outcome its now) sv =
     (if k < length (pending sv)
      then (case pending sv ! k of
              (fr, org) \<Rightarrow>
                (case processNextFrame_end its fr outcome (webrtcService sv) of
                   (res, ws) \<Rightarrow>
                     (let sv1 = sv\<lparr> webrtcService := ws,
                                     pending := take k (pending sv) @ drop (Suc k) (pending sv) \<rparr>
                      in case org of
                           Timer \<Rightarrow> sv1
                         | PhoneStream \<Rightarrow>
                             sv1\<lparr> emitted := emitted sv1 @ [res],
                                  metricsService := recordFrame cfg now res (metricsService sv1) \<rparr>)))
      else sv)"

definition run :: "config \<Rightarrow> event list \<Rightarrow> server \<Rightarrow> server" where
  "run cfg evs sv = foldl (\<lambda>s ev. step cfg ev s) sv evs"

section \<open>Class ObjectTracker\<close>

record velocity =
  vx :: real
  vy :: real

record history_entry =
  bbox_h :: "real detection"
  timestamp :: int
  frameId_h :: nat

record track =
  id_t :: nat
  bbox :: "real detection"
  label_t :: string
  score_t :: real
  prediction :: "real box"
  velocity :: velocity
  timeSinceUpdate :: int
  hits :: int
  age :: int
  firstFrameId :: nat
  lastFrameId :: nat
  createdAt :: int
  lastUpdateTime :: int

text \<open>
  \<open>tracks\<close> and \<open>trackHistory\<close> are JavaScript Maps: they iterate in insertion order, \<open>set\<close> on a
  present key replaces the value in place and on an absent key appends, \<open>delete\<close> removes the
  entry. Association lists with \<open>AList.update\<close> and \<open>AList.delete\<close> behave so. The counter
  \<open>nextTrackId\<close> is a natural number without bound.
\<close>

record tracker =
  tracks :: "(nat \<times> track) list"
  nextTrackId :: nat
  maxAge :: int
  minHits :: int
  iouThreshold :: real
  trackHistory :: "(nat \<times> history_entry list) list"

record options =
  opt_maxAge :: "int option"
  opt_minHits :: "int option"
  opt_iouThreshold :: "real option"

text \<open>\<open>options.f || d\<close>: the default replaces a missing value and the falsy value 0.\<close>

definition or_default :: "'a::zero option \<Rightarrow> 'a \<Rightarrow> 'a" where
  "or_default v d = (case v of None \<Rightarrow> d | Some k \<Rightarrow> if k = 0 then d else k)"

definition new_tracker :: "options \<Rightarrow> tracker" where
  "new_tracker opts =
     \<lparr> tracks = [], nextTrackId = 1,
       maxAge = or_default (opt_maxAge opts) 30,
       minHits = or_default (opt_minHits opts) 3,
       iouThreshold = or_default (opt_iouThreshold opts) (3 / 10),
       trackHistory = [] \<rparr>"

definition calculateIoU :: "(real, 'a) box_scheme \<Rightarrow> (real, 'b) box_scheme \<Rightarrow> real" where
  "calculateIoU box1 box2 =
     (let x1 = max (xmin box1) (xmin box2);
          y1 = max (ymin box1) (ymin box2);
          x2 = min (xmax box1) (xmax box2);
          y2 = min (ymax box1) (ymax box2)
      in if x2 \<le> x1 \<or> y2 \<le> y1 then 0
         else
           (let intersection = (x2 - x1) * (y2 - y1);
                area1 = (xmax box1 - xmin box1) * (ymax box1 - ymin box1);
                area2 = (xmax box2 - xmin box2) * (ymax box2 - ymin box2);
                union = area1 + area2 - intersection
            in intersection / union))"

text \<open>The values of the \<open>tracks\<close> map in iteration order: \<open>Array.from(this.tracks.values())\<close>.\<close>

definition track_values :: "tracker \<Rightarrow> track list" where
  "track_values T = map snd (tracks T)"

definition costMatrix :: "tracker \<Rightarrow> real detection list \<Rightarrow> real list list" where
  "costMatrix T dets =
     map (\<lambda>t. map (\<lambda>d. 1 - calculateIoU (prediction t) d) dets) (track_values T)"

record association =
  matched :: "(nat \<times> nat) list"
  unmatchedTracks :: "nat list"
  unmatchedDetections :: "nat list"

text \<open>
  The inner loop over \<open>j\<close>. \<open>bestJ\<close> is \<open>None\<close> for \<open>-1\<close> and \<open>bestCost\<close> is \<open>None\<close> for
  \<open>Infinity\<close>, below which every cost lies.
\<close>

definition below :: "real \<Rightarrow> real option \<Rightarrow> bool" where
  "below c bestCost = (case bestCost of None \<Rightarrow> True | Some b \<Rightarrow> c < b)"

definition best_step ::
  "real list \<Rightarrow> nat list \<Rightarrow> nat option \<times> real option \<Rightarrow> nat \<Rightarrow> nat option \<times> real option" where
  "best_step row unmatchedDets acc j =
     (if j \<in> set unmatchedDets \<and> below (row ! j) (snd acc) then (Some j, Some (row ! j)) else acc)"

definition find_best :: "real list \<Rightarrow> nat list \<Rightarrow> nat \<Rightarrow> nat option \<times> real option" where
  "find_best row unmatchedDets n = foldl (best_step row unmatchedDets) (None, None) [0..<n]"

text \<open>One round of the outer loop over \<open>i\<close>.\<close>

definition assign_step :: "real \<Rightarrow> real list list \<Rightarrow> nat \<Rightarrow> association \<Rightarrow> nat \<Rightarrow> association" where
  "assign_step thr cm n a i =
     (case find_best (cm ! i) (unmatchedDetections a) n of
        (Some bestJ, Some bestCost) \<Rightarrow>
          if bestCost < thr
          then \<lparr> matched = matched a @ [(i, bestJ)],
                 unmatchedTracks = removeAll i (unmatchedTracks a),
                 unmatchedDetections = removeAll bestJ (unmatchedDetections a) \<rparr>
          else a
      | _ \<Rightarrow> a)"

definition greedy_assign :: "real \<Rightarrow> real list list \<Rightarrow> nat \<Rightarrow> nat \<Rightarrow> association" where
  "greedy_assign thr cm m n =
     foldl (assign_step thr cm n)
       \<lparr> matched = [], unmatchedTracks = [0..<m], unmatchedDetections = [0..<n] \<rparr> [0..<m]"

definition associate :: "tracker \<Rightarrow> real detection list \<Rightarrow> association" where
  "associate T dets =
     greedy_assign (1 - iouThreshold T) (costMatrix T dets) (length (track_values T)) (length dets)"

definition predict_track :: "track \<Rightarrow> track" where
  "predict_track t =
     t\<lparr> prediction :=
          \<lparr> xmin = xmin (bbox t) + vx (velocity t) * 1,
            ymin = ymin (bbox t) + vy (velocity t) * 1,
            xmax = xmax (bbox t) + vx (velocity t) * 1,
            ymax = ymax (bbox t) + vy (velocity t) * 1 \<rparr> \<rparr>"

definition predict :: "tracker \<Rightarrow> tracker" where
  "predict T = T\<lparr> tracks := map (\<lambda>(k, t). (k, predict_track t)) (tracks T) \<rparr>"

text \<open>
  \<open>updateTrack\<close>, on the track object found at position \<open>trackIdx\<close> of the values. Every
  track is made by \<open>createTrack\<close>, which sets \<open>bbox\<close>, so the test \<open>if (track.bbox)\<close> succeeds.
  The history array gets the new entry and loses its oldest beyond 50. The positions that
  \<open>update\<close> passes come from \<open>associate\<close> and lie within the values (lemma
  \<open>associate_in_range\<close> below); at a position outside them the source would fail on
  \<open>undefined\<close>, and the model leaves the tracker as it is.
\<close>

definition push_history :: "history_entry \<Rightarrow> history_entry list option \<Rightarrow> history_entry list" where
  "push_history e old =
     (let history = (case old of None \<Rightarrow> [] | Some h \<Rightarrow> h) @ [e]
      in if 50 < length history then tl history else history)"

definition updateTrack :: "nat \<Rightarrow> real detection \<Rightarrow> nat \<Rightarrow> int \<Rightarrow> tracker \<Rightarrow> tracker" where
  "updateTrack trackIdx det fid currentTime T =
     (if trackIdx < length (tracks T) then
        (case tracks T ! trackIdx of
           (k, t) \<Rightarrow>
             (let t' = t\<lparr> velocity := \<lparr> vx = xmin det - xmin (bbox t), vy = ymin det - ymin (bbox t) \<rparr>,
                           bbox := det,
                           score_t := score det,
                           timeSinceUpdate := 0,
                           hits := hits t + 1,
                           lastFrameId := fid,
                           lastUpdateTime := currentTime \<rparr>;
                  e = \<lparr> bbox_h = det, timestamp = currentTime, frameId_h = fid \<rparr>
              in T\<lparr> tracks := (tracks T)[trackIdx := (k, t')],
                     trackHistory :=
                       AList.update (id_t t) (push_history e (map_of (trackHistory T) (id_t t)))
                         (trackHistory T) \<rparr>))
      else T)"

definition createTrack :: "real detection \<Rightarrow> nat \<Rightarrow> int \<Rightarrow> tracker \<Rightarrow> tracker" where
  "createTrack det fid currentTime T =
     (let t = \<lparr> id_t = nextTrackId T,
                 bbox = det,
                 label_t = label det,
                 score_t = score det,
                 prediction = \<lparr> xmin = xmin det, ymin = ymin det, xmax = xmax det, ymax = ymax det \<rparr>,
                 velocity = \<lparr> vx = 0, vy = 0 \<rparr>,
                 timeSinceUpdate = 0,
                 hits = 1,
                 age = 0,
                 firstFrameId = fid,
                 lastFrameId = fid,
                 createdAt = currentTime,
                 lastUpdateTime = currentTime \<rparr>
      in T\<lparr> nextTrackId := nextTrackId T + 1,
             tracks := AList.update (id_t t) t (tracks T),
             trackHistory :=
               AList.update (id_t t) [\<lparr> bbox_h = det, timestamp = currentTime, frameId_h = fid \<rparr>]
                 (trackHistory T) \<rparr>)"

text \<open>The third loop of \<open>update\<close>: an unmatched track ages by one cycle without update.\<close>

definition markLost :: "nat \<Rightarrow> tracker \<Rightarrow> tracker" where
  "markLost trackIdx T =
     (if trackIdx < length (tracks T) then
        (case tracks T ! trackIdx of
           (k, t) \<Rightarrow> T\<lparr> tracks := (tracks T)[trackIdx := (k, t\<lparr> timeSinceUpdate := timeSinceUpdate t + 1 \<rparr>)] \<rparr>)
      else T)"

definition too_old :: "tracker \<Rightarrow> track \<Rightarrow> bool" where
  "too_old T t = (maxAge T < timeSinceUpdate t \<or> (hits t < minHits T \<and> 10 < age t))"

definition pruneOldTracks :: "tracker \<Rightarrow> tracker" where
  "pruneOldTracks T =
     (let aged = map (\<lambda>(k, t). (k, t\<lparr> age := age t + 1 \<rparr>)) (tracks T);
          toRemove = map fst (filter (\<lambda>(k, t). too_old T t) aged)
      in T\<lparr> tracks := foldl (\<lambda>m k. AList.delete k m) aged toRemove,
             trackHistory := foldl (\<lambda>m k. AList.delete k m) (trackHistory T) toRemove \<rparr>)"

record confirmed_track = "real detection" +
  trackId :: nat
  age_c :: int
  velocity_c :: velocity
  trajectory :: "history_entry list"

definition getConfirmedTracks :: "tracker \<Rightarrow> confirmed_track list" where
  "getConfirmedTracks T =
     map (\<lambda>t. \<lparr> xmin = xmin (bbox t), ymin = ymin (bbox t), xmax = xmax (bbox t), ymax = ymax (bbox t),
                 label = label_t t, score = score_t t,
                 trackId = id_t t, age_c = age t, velocity_c = velocity t,
                 trajectory = (case map_of (trackHistory T) (id_t t) of None \<Rightarrow> [] | Some h \<Rightarrow> h) \<rparr>)
         (filter (\<lambda>t. minHits T \<le> hits t) (track_values T))"

definition update :: "real detection list \<Rightarrow> nat \<Rightarrow> int \<Rightarrow> tracker \<Rightarrow> confirmed_track list \<times> tracker" where
  "update dets fid currentTime T =
     (let T1 = predict T;
          matches = associate T1 dets;
          T2 = foldl (\<lambda>S (trackIdx, detIdx). updateTrack trackIdx (dets ! detIdx) fid currentTime S)
                 T1 (matched matches);
          T3 = foldl (\<lambda>S detIdx. createTrack (dets ! detIdx) fid currentTime S)
                 T2 (unmatchedDetections matches);
          T4 = foldl (\<lambda>S trackIdx. markLost trackIdx S) T3 (unmatchedTracks matches);
          T5 = pruneOldTracks T4
      in (getConfirmedTracks T5, T5))"

subsection \<open>The association scheme of the specification\<close>

text \<open>
  Written from the words of the specification, for comparison with \<open>associate\<close>: repeatedly
  pick the lowest remaining cost cell below the threshold, commit that pair, remove its row
  and its column, until no eligible cell remains; ties go to the first cell in scan order.
\<close>

definition eligible :: "real \<Rightarrow> real list list \<Rightarrow> nat list \<Rightarrow> nat list \<Rightarrow> (nat \<times> nat) list" where
  "eligible thr cm rows cols = concat (map (\<lambda>i. map (\<lambda>j. (i, j)) (filter (\<lambda>j. cm ! i ! j < thr) cols)) rows)"

definition lowest_cell :: "real list list \<Rightarrow> nat \<times> nat \<Rightarrow> (nat \<times> nat) list \<Rightarrow> nat \<times> nat" where
  "lowest_cell cm c cs =
     foldl (\<lambda>best c'. if cm ! fst c' ! snd c' < cm ! fst best ! snd best then c' else best) c cs"

function global_greedy :: "real \<Rightarrow> real list list \<Rightarrow> nat list \<Rightarrow> nat list \<Rightarrow> (nat \<times> nat) list" where
  "global_greedy thr cm rows cols =
     (case eligible thr cm rows cols of
        [] \<Rightarrow> []
      | c # cs \<Rightarrow>
          lowest_cell cm c cs #
          global_greedy thr cm (removeAll (fst (lowest_cell cm c cs)) rows)
            (removeAll (snd (lowest_cell cm c cs)) cols))"
  by pat_completeness auto
termination
proof (relation "measure (\<lambda>(thr, cm, rows, cols). length rows)")
  show "wf (measure (\<lambda>(thr, cm, rows, cols). length rows))" by simp
next
  fix thr :: real and cm :: "real list list" and rows cols :: "nat list"
    and c :: "nat \<times> nat" and cs :: "(nat \<times> nat) list"
  assume e: "eligible thr cm rows cols = c # cs"
  have mem: "lowest_cell cm b bs \<in> set (b # bs)" for b bs
    unfolding lowest_cell_def by (induction bs arbitrary: b) auto
  have "lowest_cell cm c cs \<in> set (eligible thr cm rows cols)"
    using mem [of c cs] e by simp
  then have "fst (lowest_cell cm c cs) \<in> set rows"
    by (auto simp: eligible_def)
  then have "length (removeAll (fst (lowest_cell cm c cs)) rows) < length rows"
    by (rule length_removeAll_less)
  then show "((thr, cm, removeAll (fst (lowest_cell cm c cs)) rows,
               removeAll (snd (lowest_cell cm c cs)) cols), thr, cm, rows, cols)
             \<in> measure (\<lambda>(thr, cm, rows, cols). length rows)"
    by simp
qed

definition associate_spec :: "tracker \<Rightarrow> real detection list \<Rightarrow> (nat \<times> nat) list" where
  "associate_spec T dets =
     global_greedy (1 - iouThreshold T) (costMatrix T dets)
       [0..<length (track_values T)] [0..<length dets]"

section \<open>Latency statistics: MetricsService.calculateLatencyStats\<close>

record latency_stats =
  median :: real
  p95 :: real
  min_l :: real
  max_l :: real
  avg :: real

text \<open>
  The function sorts a copy (\<open>latencies.slice().sort((a, b) => a - b)\<close>) and indexes it. The
  value is the statistics together with the contents of the argument array after the call.
\<close>

definition calculateLatencyStats :: "real list \<Rightarrow> latency_stats \<times> real list" where
  "calculateLatencyStats latencies =
     (if length latencies = 0
      then (\<lparr> median = 0, p95 = 0, min_l = 0, max_l = 0, avg = 0 \<rparr>, latencies)
      else
        (let sorted = sort latencies
         in (\<lparr> median = sorted ! nat \<lfloor>real (length sorted) / 2\<rfloor>,
                p95 = sorted ! nat \<lfloor>real (length sorted) * (95 / 100)\<rfloor>,
                min_l = sorted ! 0,
                max_l = sorted ! (length sorted - 1),
                avg = sum_list latencies / real (length latencies) \<rparr>,
             latencies)))"

section \<open>Predicates and invariants of the statements\<close>

subsection \<open>Boxes\<close>



subsection \<open>The server\<close>

text \<open>The flag is set exactly when one Detector call is pending; shown below to hold in every
  state the server reaches.\<close>

definition flag_tracks_pending :: "server \<Rightarrow> bool" where
  "flag_tracks_pending sv =
     (length (pending sv) = (if isProcessing (webrtcService sv) then 1 else 0))"

subsection \<open>The tracker\<close>

text \<open>\<open>taken_before M i j\<close>: detection \<open>j\<close> is committed in \<open>M\<close> to a track of smaller index than
  \<open>i\<close>. \<open>rowwise_greedy\<close> describes a matching made row by row: pairs are listed by increasing
  track, no detection is used twice, every pair is below the threshold and is the cheapest
  cell of its row among the detections not taken before (the first such cell on equal cost),
  and a track without a pair has no cell below the threshold among them.\<close>

definition taken_before :: "(nat \<times> nat) list \<Rightarrow> nat \<Rightarrow> nat \<Rightarrow> bool" where
  "taken_before M i j = (\<exists>p \<in> set M. fst p < i \<and> snd p = j)"

definition rowwise_greedy :: "real \<Rightarrow> real list list \<Rightarrow> nat \<Rightarrow> nat \<Rightarrow> (nat \<times> nat) list \<Rightarrow> bool" where
  "rowwise_greedy thr cm m n M =
     (sorted_wrt (<) (map fst M) \<and> distinct (map snd M) \<and>
      (\<forall>p \<in> set M.
         fst p < m \<and> snd p < n \<and> cm ! fst p ! snd p < thr \<and>
         (\<forall>j' < n. \<not> taken_before M (fst p) j' \<longrightarrow>
            cm ! fst p ! snd p \<le> cm ! fst p ! j' \<and>
            (j' < snd p \<longrightarrow> cm ! fst p ! snd p < cm ! fst p ! j'))) \<and>
      (\<forall>i < m. i \<notin> fst ` set M \<longrightarrow>
         (\<forall>j' < n. \<not> taken_before M i j' \<longrightarrow> thr \<le> cm ! i ! j')))"

text \<open>The state of \<open>associate\<close> after the rounds for tracks \<open>0..<k\<close>.\<close>

definition assign_inv ::
  "real \<Rightarrow> real list list \<Rightarrow> nat \<Rightarrow> nat \<Rightarrow> nat \<Rightarrow> association \<Rightarrow> bool" where
  "assign_inv thr cm m n k a =
     (rowwise_greedy thr cm k n (matched a) \<and>
      unmatchedTracks a = filter (\<lambda>i. i \<notin> fst ` set (matched a)) [0..<m] \<and>
      unmatchedDetections a = filter (\<lambda>j. j \<notin> snd ` set (matched a)) [0..<n])"

text \<open>The keys of the \<open>tracks\<close> map in insertion order. In every state the tracker reaches they are
  strictly increasing, each is the \<open>id\<close> of its track, and all lie below \<open>nextTrackId\<close>.\<close>

definition ids :: "tracker \<Rightarrow> nat list" where
  "ids T = map fst (tracks T)"

definition tracker_inv :: "tracker \<Rightarrow> bool" where
  "tracker_inv T =
     (sorted_wrt (<) (ids T) \<and>
      (\<forall>p \<in> set (tracks T). id_t (snd p) = fst p \<and> fst p < nextTrackId T))"

text \<open>\<open>hits_shift c T T'\<close>: \<open>T'\<close> has the tracks of \<open>T\<close> at the same positions with the same
  keys and ids, the track at position \<open>i\<close> having gained \<open>c i\<close> hits.\<close>

definition hits_shift :: "(nat \<Rightarrow> int) \<Rightarrow> tracker \<Rightarrow> tracker \<Rightarrow> bool" where
  "hits_shift c T T' =
     (length (tracks T') = length (tracks T) \<and> nextTrackId T' = nextTrackId T \<and>
      minHits T' = minHits T \<and> maxAge T' = maxAge T \<and> iouThreshold T' = iouThreshold T \<and>
      (\<forall>i < length (tracks T).
         fst (tracks T' ! i) = fst (tracks T ! i) \<and>
         id_t (snd (tracks T' ! i)) = id_t (snd (tracks T ! i)) \<and>
         hits (snd (tracks T' ! i)) = hits (snd (tracks T ! i)) + c i))"

text \<open>The pairs matched in an update cycle on \<open>T\<close>: association runs after prediction.\<close>

definition cycle_matches :: "real detection list \<Rightarrow> tracker \<Rightarrow> (nat \<times> nat) list" where
  "cycle_matches dets T = matched (associate (predict T) dets)"

text \<open>A sequence of \<open>update(detections, frameId)\<close> calls, each with the time it reads.\<close>

type_synonym cycle = "real detection list \<times> nat \<times> int"

definition run_tracker :: "tracker \<Rightarrow> cycle list \<Rightarrow> tracker" where
  "run_tracker T bs = foldl (\<lambda>S (dets, fid, now). snd (update dets fid now S)) T bs"




section \<open>Sample data\<close>

definition fr1 :: frame where
  "fr1 = \<lparr> frameId = 1, imageData = ''a'', captureTs = 0, recvTs = 5, queuedTs = 5 \<rparr>"

definition fr2 :: frame where
  "fr2 = \<lparr> frameId = 2, imageData = ''b'', captureTs = 33, recvTs = 38, queuedTs = 38 \<rparr>"

definition fr3 :: frame where
  "fr3 = \<lparr> frameId = 3, imageData = ''c'', captureTs = 66, recvTs = 71, queuedTs = 71 \<rparr>"

definition default_config :: config where
  "default_config = \<lparr> maxQueueSize = config_maxQueueSize None, targetFps = 15, windowSize = 30 \<rparr>"

definition busy_service :: webrtc_service where
  "busy_service = \<lparr> frameQueue = [], isProcessing = True \<rparr>"

definition person :: "real detection" where
  "person = \<lparr> xmin = 1/10, ymin = 1/10, xmax = 4/10, ymax = 4/10, label = ''person'', score = 9/10 \<rparr>"

definition default_options :: options where
  "default_options = \<lparr> opt_maxAge = None, opt_minHits = None, opt_iouThreshold = None \<rparr>"



definition backlog_server :: server where
  "backlog_server =
     \<lparr> webrtcService = \<lparr> frameQueue = [fr1, fr2, fr3], isProcessing = False \<rparr>,
       metricsService = new_metrics_service, pending = [], emitted = [] \<rparr>"

definition det_a :: "real detection" where
  "det_a = \<lparr> xmin = 2/10, ymin = 2/10, xmax = 7/10, ymax = 6/10, label = ''person'', score = 9/10 \<rparr>"

definition det_b :: "real detection" where
  "det_b = \<lparr> xmin = 3/10, ymin = 2/10, xmax = 8/10, ymax = 6/10, label = ''person'', score = 9/10 \<rparr>"

definition det_c :: "real detection" where
  "det_c = \<lparr> xmin = 1/20, ymin = 2/10, xmax = 11/20, ymax = 6/10, label = ''person'', score = 9/10 \<rparr>"

definition crowded_tracker :: tracker where
  "crowded_tracker = predict (snd (update [det_a, det_b] 1 0 (new_tracker default_options)))"



definition idle_cycles :: "cycle list" where
  "idle_cycles = map (\<lambda>i. ([], i, 33 * int i)) [2..<13]"

section \<open>Keep-latest dequeue\<close>

lemma handlePhoneFrame_busy:
  assumes "isProcessing s" and "handlePhoneFrame maxQ fr s = Inr (st, s')"
  shows "st = None \<and> isProcessing s' \<and> frameQueue s' \<noteq> [] \<and> last (frameQueue s') = fr"
  using assms
  by (auto simp: handlePhoneFrame_def Let_def split: if_splits list.splits)

lemma handlePhoneFrame_accepts:
  assumes "0 < maxQ"
  shows "\<exists>st s'. handlePhoneFrame maxQ fr s = Inr (st, s')"
  using assms
  by (cases "frameQueue s") (auto simp: handlePhoneFrame_def Let_def processNextFrame_begin_def)

lemma enqueue_all_accepts:
  assumes "0 < maxQ"
  shows "\<exists>s'. enqueue_all maxQ frs s = Inr s'"
proof (induction frs arbitrary: s)
  case Nil
  show ?case by simp
next
  case (Cons fr frs)
  obtain st s1 where h: "handlePhoneFrame maxQ fr s = Inr (st, s1)"
    using handlePhoneFrame_accepts [OF assms] by blast
  from Cons.IH [of s1] h show ?case by simp
qed

lemma enqueue_all_busy:
  assumes "isProcessing s" and "enqueue_all maxQ frs s = Inr s'"
  shows "isProcessing s' \<and> (frs \<noteq> [] \<longrightarrow> frameQueue s' \<noteq> [] \<and> last (frameQueue s') = last frs)"
  using assms
proof (induction frs arbitrary: s)
  case Nil
  then show ?case by simp
next
  case (Cons fr frs)
  from Cons.prems(2) obtain st s1 where h: "handlePhoneFrame maxQ fr s = Inr (st, s1)"
    and r: "enqueue_all maxQ frs s1 = Inr s'"
    by (auto split: sum.splits)
  from handlePhoneFrame_busy [OF Cons.prems(1) h]
  have b: "isProcessing s1" and q: "frameQueue s1 \<noteq> []" "last (frameQueue s1) = fr" by simp_all
  from Cons.IH [OF b r] have ih: "isProcessing s'"
    "frs \<noteq> [] \<longrightarrow> frameQueue s' \<noteq> [] \<and> last (frameQueue s') = last frs" by simp_all
  show ?case
  proof (cases frs)
    case Nil
    with r q ih show ?thesis by simp
  next
    case (Cons a as)
    with ih show ?thesis by simp
  qed
qed

lemma processNextFrame_latest:
  assumes "frameQueue s \<noteq> []"
  shows "fst (processNextFrame detect ts s) =
     (case detect (imageData (last (frameQueue s))) of
        Inl e \<Rightarrow> None
      | Inr dets \<Rightarrow>
          Some \<lparr> frame_id = frameId (last (frameQueue s)), capture_ts = captureTs (last (frameQueue s)),
                 recv_ts = recvTs (last (frameQueue s)), inference_ts = ts,
                 detections = map to_wire dets \<rparr>)"
  using assms
  by (simp add: processNextFrame_def processNextFrame_begin_def processNextFrame_end_def
      processNextFrame_body_def split: sum.splits)

text \<open>
  Claim C1. When one or more frames arrive through \<open>handlePhoneFrame\<close> while a Detector call
  is in flight (so that none of them is dequeued), every arrival is accepted when the capacity
  is positive, and afterwards the queue ends with the frame that arrived last: the next
  \<open>processNextFrame\<close>, whatever the flag then is, hands that frame to the Detector and returns
  the result record of that frame, never the record of an older frame. (For an arbitrary
  awaited call the value is \<open>null\<close> when the call is rejected; \<open>detectObjects\<close> never rejects.)
\<close>

theorem keep_latest_dequeue:
  assumes "isProcessing s" and "frs \<noteq> []"
  shows "(0 < maxQ \<longrightarrow> (\<exists>s'. enqueue_all maxQ frs s = Inr s')) \<and>
    (\<forall>s'. enqueue_all maxQ frs s = Inr s' \<longrightarrow>
       frameQueue s' \<noteq> [] \<and> last (frameQueue s') = last frs \<and>
       (\<forall>b detect infer ts.
          fst (processNextFrame_begin (s'\<lparr> isProcessing := b \<rparr>)) = Some (last frs) \<and>
          fst (processNextFrame detect ts (s'\<lparr> isProcessing := b \<rparr>)) =
            (case detect (imageData (last frs)) of
               Inl e \<Rightarrow> None
             | Inr dets \<Rightarrow>
                 Some \<lparr> frame_id = frameId (last frs), capture_ts = captureTs (last frs),
                        recv_ts = recvTs (last frs), inference_ts = ts,
                        detections = map to_wire dets \<rparr>) \<and>
          fst (processNextFrame (detectObjects infer) ts (s'\<lparr> isProcessing := b \<rparr>)) =
            Some \<lparr> frame_id = frameId (last frs), capture_ts = captureTs (last frs),
                   recv_ts = recvTs (last frs), inference_ts = ts,
                   detections =
                     map to_wire (case infer (imageData (last frs)) of Inl e \<Rightarrow> [] | Inr dets \<Rightarrow> dets) \<rparr>))"
proof (intro conjI allI impI)
  assume "0 < maxQ"
  then show "\<exists>s'. enqueue_all maxQ frs s = Inr s'" by (rule enqueue_all_accepts)
next
  fix s' assume e: "enqueue_all maxQ frs s = Inr s'"
  from enqueue_all_busy [OF assms(1) e] assms(2)
  show q: "frameQueue s' \<noteq> []" and l: "last (frameQueue s') = last frs" by simp_all
  fix b detect infer ts
  show "fst (processNextFrame (detectObjects infer) ts (s'\<lparr> isProcessing := b \<rparr>)) =
            Some \<lparr> frame_id = frameId (last frs), capture_ts = captureTs (last frs),
                   recv_ts = recvTs (last frs), inference_ts = ts,
                   detections =
                     map to_wire (case infer (imageData (last frs)) of Inl e \<Rightarrow> [] | Inr dets \<Rightarrow> dets) \<rparr>"
    using processNextFrame_latest [of "s'\<lparr> isProcessing := b \<rparr>" "detectObjects infer" ts] q l
    by (cases "infer (imageData (last frs))") (simp_all add: detectObjects_def)
  show "fst (processNextFrame_begin (s'\<lparr> isProcessing := b \<rparr>)) = Some (last frs)"
    using q l by (simp add: processNextFrame_begin_def)
  show "fst (processNextFrame detect ts (s'\<lparr> isProcessing := b \<rparr>)) =
            (case detect (imageData (last frs)) of
               Inl e \<Rightarrow> None
             | Inr dets \<Rightarrow>
                 Some \<lparr> frame_id = frameId (last frs), capture_ts = captureTs (last frs),
                        recv_ts = recvTs (last frs), inference_ts = ts,
                        detections = map to_wire dets \<rparr>)"
    using processNextFrame_latest [of "s'\<lparr> isProcessing := b \<rparr>" detect ts] q l
    by (simp split: sum.splits)
qed

theorem keep_latest_dequeue_witness:
  "isProcessing busy_service \<and> [fr1, fr2, fr3] \<noteq> [] \<and>
   enqueue_all 2 [fr1, fr2, fr3] busy_service = Inr \<lparr> frameQueue = [fr2, fr3], isProcessing = True \<rparr> \<and>
   fst (processNextFrame (\<lambda>img. Inr []) 100 \<lparr> frameQueue = [fr2, fr3], isProcessing = False \<rparr>) =
     Some \<lparr> frame_id = 3, capture_ts = 66, recv_ts = 71, inference_ts = 100, detections = [] \<rparr>"
proof -
  have e: "enqueue_all 2 [fr1, fr2, fr3] busy_service = Inr \<lparr> frameQueue = [fr2, fr3], isProcessing = True \<rparr>"
    by (simp add: handlePhoneFrame_def busy_service_def Let_def)
  have b: "isProcessing busy_service" by (simp add: busy_service_def)
  from keep_latest_dequeue [OF b, of "[fr1, fr2, fr3]" 2] e
  have "fst (processNextFrame (\<lambda>img. Inr []) 100
               (\<lparr> frameQueue = [fr2, fr3], isProcessing = True \<rparr>\<lparr> isProcessing := False \<rparr>)) =
          Some \<lparr> frame_id = frameId fr3, capture_ts = captureTs fr3, recv_ts = recvTs fr3,
                 inference_ts = 100, detections = map to_wire [] \<rparr>"
    by simp
  then show ?thesis using e b by (simp add: fr3_def)
qed

section \<open>Intersection over union\<close>




text \<open>Past the guard of \<open>calculateIoU\<close> the union area is positive, so the quotient is a
  proper division.\<close>

lemma calculateIoU_union_pos:
  fixes a :: "(real, 'a) box_scheme" and b :: "(real, 'b) box_scheme"
  assumes "max (xmin a) (xmin b) < min (xmax a) (xmax b)"
      and "max (ymin a) (ymin b) < min (ymax a) (ymax b)"
  shows "0 < (xmax a - xmin a) * (ymax a - ymin a) + (xmax b - xmin b) * (ymax b - ymin b)
           - (min (xmax a) (xmax b) - max (xmin a) (xmin b)) * (min (ymax a) (ymax b) - max (ymin a) (ymin b))"
proof -
  let ?w = "min (xmax a) (xmax b) - max (xmin a) (xmin b)"
  let ?h = "min (ymax a) (ymax b) - max (ymin a) (ymin b)"
  have w: "0 < ?w \<and> ?w \<le> xmax a - xmin a" using assms(1) by (auto simp: min_def max_def)
  have h: "0 < ?h \<and> ?h \<le> ymax a - ymin a" using assms(2) by (auto simp: min_def max_def)
  have "?w * ?h \<le> (xmax a - xmin a) * (ymax a - ymin a)"
    using w h by (intro mult_mono) auto
  moreover have "0 < (xmax b - xmin b) * (ymax b - ymin b)"
    using assms by (intro mult_pos_pos) (auto simp: min_def max_def split: if_splits)
  ultimately show ?thesis by linarith
qed



section \<open>Latency statistics\<close>

lemma p95_index_bounds:
  assumes "0 < n"
  shows "nat \<lfloor>real n / 2\<rfloor> \<le> nat \<lfloor>real n * (95 / 100)\<rfloor>"
    and "nat \<lfloor>real n * (95 / 100)\<rfloor> \<le> n - 1"
proof -
  have "real n / 2 \<le> real n * (95 / 100)" by simp
  then have "\<lfloor>real n / 2\<rfloor> \<le> \<lfloor>real n * (95 / 100)\<rfloor>" by (rule floor_mono)
  then show "nat \<lfloor>real n / 2\<rfloor> \<le> nat \<lfloor>real n * (95 / 100)\<rfloor>" by simp
  have "real n * (95 / 100) < real n" using assms by simp
  then have "\<lfloor>real n * (95 / 100)\<rfloor> < int n" by (simp add: floor_less_iff)
  then show "nat \<lfloor>real n * (95 / 100)\<rfloor> \<le> n - 1" using assms by linarith
qed

lemma calculateLatencyStats_order:
  assumes "xs \<noteq> []"
  shows "min_l (fst (calculateLatencyStats xs)) \<le> median (fst (calculateLatencyStats xs)) \<and>
         median (fst (calculateLatencyStats xs)) \<le> p95 (fst (calculateLatencyStats xs)) \<and>
         p95 (fst (calculateLatencyStats xs)) \<le> max_l (fst (calculateLatencyStats xs))"
proof -
  let ?s = "sort xs"
  let ?n = "length ?s"
  from assms have n: "0 < ?n" by simp
  have srt: "sorted ?s" by simp
  have a: "?s ! 0 \<le> ?s ! nat \<lfloor>real ?n / 2\<rfloor>"
    using srt n p95_index_bounds [OF n] by (intro sorted_nth_mono) linarith+
  have b: "?s ! nat \<lfloor>real ?n / 2\<rfloor> \<le> ?s ! nat \<lfloor>real ?n * (95 / 100)\<rfloor>"
    using srt n p95_index_bounds [OF n] by (intro sorted_nth_mono) linarith+
  have c: "?s ! nat \<lfloor>real ?n * (95 / 100)\<rfloor> \<le> ?s ! (?n - 1)"
    using srt n p95_index_bounds [OF n] by (intro sorted_nth_mono) linarith+
  from a b c assms show ?thesis
    by (simp add: calculateLatencyStats_def Let_def)
qed

lemma calculateLatencyStats_perm:
  assumes "mset ys = mset xs"
  shows "fst (calculateLatencyStats ys) = fst (calculateLatencyStats xs)"
proof -
  from assms have s: "sort ys = sort xs"
    by (intro properties_for_sort) simp_all
  from assms have l: "length ys = length xs" by (rule mset_eq_length)
  have "sum_list ys = sum_mset (mset ys)" by (simp add: sum_mset_sum_list)
  also have "\<dots> = sum_list xs" using assms by (simp add: sum_mset_sum_list)
  finally have "sum_list ys = sum_list xs" .
  with s l show ?thesis
    by (simp add: calculateLatencyStats_def Let_def)
qed

text \<open>
  Claim C8. \<open>calculateLatencyStats\<close> leaves its argument array as it was, so a second call on
  the same samples returns the same statistics; the statistics depend only on the multiset of
  samples (sorting or permuting the input changes nothing); and for a non-empty sample list
  \<open>min \<le> median \<le> p95 \<le> max\<close>.
\<close>

theorem calculateLatencyStats_properties:
  "snd (calculateLatencyStats xs) = xs \<and>
   fst (calculateLatencyStats (snd (calculateLatencyStats xs))) = fst (calculateLatencyStats xs) \<and>
   fst (calculateLatencyStats (sort xs)) = fst (calculateLatencyStats xs) \<and>
   (mset ys = mset xs \<longrightarrow> fst (calculateLatencyStats ys) = fst (calculateLatencyStats xs)) \<and>
   (xs \<noteq> [] \<longrightarrow>
      min_l (fst (calculateLatencyStats xs)) \<le> median (fst (calculateLatencyStats xs)) \<and>
      median (fst (calculateLatencyStats xs)) \<le> p95 (fst (calculateLatencyStats xs)) \<and>
      p95 (fst (calculateLatencyStats xs)) \<le> max_l (fst (calculateLatencyStats xs)))"
proof -
  have 1: "snd (calculateLatencyStats xs) = xs"
    by (simp add: calculateLatencyStats_def Let_def)
  have 3: "fst (calculateLatencyStats (sort xs)) = fst (calculateLatencyStats xs)"
    by (rule calculateLatencyStats_perm) simp
  from 1 3 calculateLatencyStats_perm [of ys xs] calculateLatencyStats_order [of xs]
  show ?thesis by simp
qed

theorem calculateLatencyStats_properties_witness:
  "[40, 10, 30, 20] \<noteq> ([] :: real list) \<and> mset [10, 20, 30, 40] = mset [40, 10, 30, 20 :: real] \<and>
   calculateLatencyStats [40, 10, 30, 20] =
     (\<lparr> median = 30, p95 = 40, min_l = 10, max_l = 40, avg = 25 \<rparr>, [40, 10, 30, 20]) \<and>
   fst (calculateLatencyStats [10, 20, 30, 40]) = fst (calculateLatencyStats [40, 10, 30, 20])"
proof -
  have v: "calculateLatencyStats [40, 10, 30, 20] =
     (\<lparr> median = 30, p95 = 40, min_l = 10, max_l = 40, avg = 25 \<rparr>, [40, 10, 30, 20])"
    by (simp add: calculateLatencyStats_def)
  have m: "mset [10, 20, 30, 40] = mset [40, 10, 30, 20 :: real]" by simp
  from calculateLatencyStats_properties [of "[40, 10, 30, 20]" "[10, 20, 30, 40]"] m v
  show ?thesis by simp
qed

section \<open>At most one Detector call in flight\<close>

lemma processNextFrame_begin_nonempty:
  assumes "frameQueue s \<noteq> []"
  shows "processNextFrame_begin s =
           (Some (last (frameQueue s)), s\<lparr> isProcessing := True, frameQueue := [] \<rparr>)"
  using assms by (simp add: processNextFrame_begin_def)

lemma handlePhoneFrame_idle:
  assumes "\<not> isProcessing s" and "handlePhoneFrame maxQ fr s = Inr (st, s')"
  shows "st = Some fr \<and> isProcessing s' \<and> frameQueue s' = []"
  using assms
  by (auto simp: handlePhoneFrame_def Let_def processNextFrame_begin_def
      split: if_splits list.splits)

lemma step_PhoneStreamMsg_busy:
  assumes "isProcessing (webrtcService sv)"
  shows "pending (step cfg (PhoneStreamMsg fr) sv) = pending sv \<and>
         isProcessing (webrtcService (step cfg (PhoneStreamMsg fr) sv))"
proof (cases "handlePhoneFrame (maxQueueSize cfg) fr (webrtcService sv)")
  case (Inl e)
  with assms show ?thesis by simp
next
  case (Inr p)
  obtain st ws where p: "p = (st, ws)" by (cases p)
  from handlePhoneFrame_busy [OF assms] Inr p have "st = None" "isProcessing ws" by simp_all
  with Inr p show ?thesis by simp
qed

lemma step_PhoneStreamMsg_idle:
  assumes "\<not> isProcessing (webrtcService sv)"
  shows "step cfg (PhoneStreamMsg fr) sv = sv \<or>
         (pending (step cfg (PhoneStreamMsg fr) sv) = pending sv @ [(fr, PhoneStream)] \<and>
          isProcessing (webrtcService (step cfg (PhoneStreamMsg fr) sv)) \<and>
          frameQueue (webrtcService (step cfg (PhoneStreamMsg fr) sv)) = [] \<and>
          metricsService (step cfg (PhoneStreamMsg fr) sv) = metricsService sv)"
proof (cases "handlePhoneFrame (maxQueueSize cfg) fr (webrtcService sv)")
  case (Inl e)
  then show ?thesis by simp
next
  case (Inr p)
  obtain st ws where p: "p = (st, ws)" by (cases p)
  from handlePhoneFrame_idle [OF assms] Inr p
  have "st = Some fr" "isProcessing ws" "frameQueue ws = []" by simp_all
  with Inr p show ?thesis by simp
qed

lemma step_TimerTick_busy:
  assumes "isProcessing (webrtcService sv)"
  shows "step cfg TimerTick sv = sv"
  using assms by simp

lemma step_TimerTick_idle:
  assumes "\<not> isProcessing (webrtcService sv)" and "frameQueue (webrtcService sv) \<noteq> []"
  shows "step cfg TimerTick sv =
           sv\<lparr> webrtcService := (webrtcService sv)\<lparr> isProcessing := True, frameQueue := [] \<rparr>,
               pending := pending sv @ [(last (frameQueue (webrtcService sv)), Timer)] \<rparr>"
  using assms by (simp add: processNextFrame_begin_def)

lemma step_flag_tracks_pending:
  assumes "flag_tracks_pending sv"
  shows "flag_tracks_pending (step cfg ev sv)"
proof (cases ev)
  case (PhoneStreamMsg fr)
  show ?thesis
  proof (cases "isProcessing (webrtcService sv)")
    case True
    from step_PhoneStreamMsg_busy [OF True, of cfg fr] assms True PhoneStreamMsg
    show ?thesis by (simp add: flag_tracks_pending_def)
  next
    case False
    from step_PhoneStreamMsg_idle [OF False, of cfg fr] assms False PhoneStreamMsg
    show ?thesis by (auto simp: flag_tracks_pending_def)
  qed
next
  case TimerTick
  show ?thesis
  proof (cases "\<not> isProcessing (webrtcService sv) \<and> frameQueue (webrtcService sv) \<noteq> []")
    case True
    with step_TimerTick_idle [of sv cfg] assms TimerTick show ?thesis
      by (simp add: flag_tracks_pending_def)
  next
    case False
    with assms TimerTick show ?thesis by auto
  qed
next
  case (DetectorSettled k outcome its now)
  show ?thesis
  proof (cases "k < length (pending sv)")
    case False
    with assms DetectorSettled show ?thesis by simp
  next
    case True
    with assms have one: "length (pending sv) = 1" and k: "k = 0"
      by (auto simp: flag_tracks_pending_def split: if_splits)
    then obtain fr org where pd: "pending sv = [(fr, org)]"
      by (cases "pending sv") auto
    show ?thesis using pd k DetectorSettled
      by (cases org)
        (simp_all add: flag_tracks_pending_def processNextFrame_end_def Let_def split: sum.splits)
  qed
qed

lemma run_flag_tracks_pending:
  assumes "flag_tracks_pending sv"
  shows "flag_tracks_pending (run cfg evs sv)"
  using assms unfolding run_def
  by (induction evs arbitrary: sv) (simp_all add: step_flag_tracks_pending)

lemma new_server_flag_tracks_pending: "flag_tracks_pending new_server"
  by (simp add: flag_tracks_pending_def new_server_def new_webrtc_service_def)

text \<open>
  Claim C2. In every state the server reaches from start-up by arrivals, timer ticks and
  settling Detector calls, at most one Detector call is pending, and \<open>isProcessing\<close> is set
  exactly when one is. While the flag is set neither a tick nor an arriving frame adds a
  pending call. Nothing but the flag holds a call back: with the flag clear, a tick that finds
  a frame and an accepted arrival each start one.
\<close>

theorem at_most_one_detector_call:
  "length (pending (run cfg evs new_server)) \<le> 1 \<and>
   (isProcessing (webrtcService (run cfg evs new_server)) \<longleftrightarrow> pending (run cfg evs new_server) \<noteq> []) \<and>
   (isProcessing (webrtcService (run cfg evs new_server)) \<longrightarrow>
      pending (step cfg TimerTick (run cfg evs new_server)) = pending (run cfg evs new_server) \<and>
      pending (step cfg (PhoneStreamMsg fr) (run cfg evs new_server)) = pending (run cfg evs new_server)) \<and>
   (\<not> isProcessing (webrtcService (run cfg evs new_server)) \<and>
    frameQueue (webrtcService (run cfg evs new_server)) \<noteq> [] \<longrightarrow>
      pending (step cfg TimerTick (run cfg evs new_server)) =
        [(last (frameQueue (webrtcService (run cfg evs new_server))), Timer)]) \<and>
   (\<not> isProcessing (webrtcService (run cfg evs new_server)) \<and> 0 < maxQueueSize cfg \<longrightarrow>
      pending (step cfg (PhoneStreamMsg fr) (run cfg evs new_server)) = [(fr, PhoneStream)])"
proof -
  let ?sv = "run cfg evs new_server"
  have inv: "flag_tracks_pending ?sv"
    using new_server_flag_tracks_pending by (rule run_flag_tracks_pending)
  have a: "length (pending ?sv) \<le> 1"
    using inv by (simp add: flag_tracks_pending_def split: if_splits)
  have b: "isProcessing (webrtcService ?sv) \<longleftrightarrow> pending ?sv \<noteq> []"
    using inv by (auto simp: flag_tracks_pending_def split: if_splits)
  have c: "isProcessing (webrtcService ?sv) \<longrightarrow>
      pending (step cfg TimerTick ?sv) = pending ?sv \<and>
      pending (step cfg (PhoneStreamMsg fr) ?sv) = pending ?sv"
    using step_PhoneStreamMsg_busy [of ?sv cfg fr] by simp
  have d: "\<not> isProcessing (webrtcService ?sv) \<and> frameQueue (webrtcService ?sv) \<noteq> [] \<longrightarrow>
      pending (step cfg TimerTick ?sv) = [(last (frameQueue (webrtcService ?sv)), Timer)]"
    using b by (simp add: processNextFrame_begin_def)
  have e: "\<not> isProcessing (webrtcService ?sv) \<and> 0 < maxQueueSize cfg \<longrightarrow>
      pending (step cfg (PhoneStreamMsg fr) ?sv) = [(fr, PhoneStream)]"
  proof (intro impI, elim conjE)
    assume idle: "\<not> isProcessing (webrtcService ?sv)" and cap: "0 < maxQueueSize cfg"
    from handlePhoneFrame_accepts [OF cap, of fr "webrtcService ?sv"]
    obtain st ws where h: "handlePhoneFrame (maxQueueSize cfg) fr (webrtcService ?sv) = Inr (st, ws)"
      by blast
    from handlePhoneFrame_idle [OF idle h] have "st = Some fr" by simp
    with h b idle show "pending (step cfg (PhoneStreamMsg fr) ?sv) = [(fr, PhoneStream)]"
      by simp
  qed
  from a b c d e show ?thesis by blast
qed

theorem at_most_one_detector_call_witness:
  "isProcessing (webrtcService (run default_config [PhoneStreamMsg fr1, PhoneStreamMsg fr2] new_server)) \<and>
   pending (run default_config [PhoneStreamMsg fr1, PhoneStreamMsg fr2] new_server) = [(fr1, PhoneStream)] \<and>
   pending (step default_config TimerTick
              (run default_config [PhoneStreamMsg fr1, PhoneStreamMsg fr2] new_server)) = [(fr1, PhoneStream)] \<and>
   pending (step default_config (PhoneStreamMsg fr3)
              (run default_config [PhoneStreamMsg fr1, PhoneStreamMsg fr2] new_server)) = [(fr1, PhoneStream)]"
proof -
  have r: "run default_config [PhoneStreamMsg fr1, PhoneStreamMsg fr2] new_server =
      \<lparr> webrtcService = \<lparr> frameQueue = [fr2], isProcessing = True \<rparr>,
        metricsService = new_metrics_service, pending = [(fr1, PhoneStream)], emitted = [None] \<rparr>"
    by (simp add: run_def new_server_def new_webrtc_service_def default_config_def
        config_maxQueueSize_def handlePhoneFrame_def processNextFrame_begin_def Let_def
        recordFrame_def)
  from at_most_one_detector_call [of default_config "[PhoneStreamMsg fr1, PhoneStreamMsg fr2]" fr3] r
  show ?thesis by simp
qed

section \<open>Queue capacity and evictions\<close>



text \<open>No event of the server changes the dropped and total counters: \<open>recordDroppedFrame\<close> and
  \<open>recordTotalFrame\<close> have no caller.\<close>

lemma step_dropped_total:
  "droppedFrames (metricsService (step cfg ev sv)) = droppedFrames (metricsService sv) \<and>
   totalFrames (metricsService (step cfg ev sv)) = totalFrames (metricsService sv)"
proof (cases ev)
  case (PhoneStreamMsg fr)
  then show ?thesis
    by (cases "handlePhoneFrame (maxQueueSize cfg) fr (webrtcService sv)")
      (auto simp: recordFrame_def split: option.splits)
next
  case TimerTick
  then show ?thesis
    by (auto simp: processNextFrame_begin_def)
next
  case (DetectorSettled k outcome its now)
  obtain fr org where p: "pending sv ! k = (fr, org)" by (cases "pending sv ! k")
  obtain res ws where e: "processNextFrame_end its fr outcome (webrtcService sv) = (res, ws)"
    by (cases "processNextFrame_end its fr outcome (webrtcService sv)")
  show ?thesis
    using DetectorSettled p e
    by (cases org) (simp_all add: Let_def recordFrame_def split: option.splits)
qed

lemma run_dropped_total:
  "droppedFrames (metricsService (run cfg evs sv)) = droppedFrames (metricsService sv) \<and>
   totalFrames (metricsService (run cfg evs sv)) = totalFrames (metricsService sv)"
  unfolding run_def
  by (induction evs arbitrary: sv) (simp_all add: step_dropped_total)




section \<open>Failure of the Detector\<close>

lemma detectObjects_never_rejects: "\<exists>dets. detectObjects infer img = Inr dets"
  by (cases "infer img") (simp_all add: detectObjects_def)

lemma processNextFrame_end_flag: "\<not> isProcessing (snd (processNextFrame_end its fr outcome s))"
  by (simp add: processNextFrame_end_def split: sum.splits)




section \<open>Dequeue clears the queue\<close>

lemma recordFrame_counters:
  "droppedFrames (recordFrame cfg now r m) = droppedFrames m \<and>
   totalFrames (recordFrame cfg now r m) = totalFrames m \<and>
   processedFrames (recordFrame cfg now r m) \<le> processedFrames m + 1"
  by (simp add: recordFrame_def Let_def split: option.splits)

lemma step_DetectorSettled_counters:
  "droppedFrames (metricsService (step cfg (DetectorSettled k outcome its now) sv)) =
     droppedFrames (metricsService sv) \<and>
   totalFrames (metricsService (step cfg (DetectorSettled k outcome its now) sv)) =
     totalFrames (metricsService sv) \<and>
   processedFrames (metricsService (step cfg (DetectorSettled k outcome its now) sv)) \<le>
     processedFrames (metricsService sv) + 1"
proof (cases "k < length (pending sv)")
  case False
  then show ?thesis by simp
next
  case True
  obtain fr org where p: "pending sv ! k = (fr, org)" by (cases "pending sv ! k")
  obtain res ws where e: "processNextFrame_end its fr outcome (webrtcService sv) = (res, ws)"
    by (cases "processNextFrame_end its fr outcome (webrtcService sv)")
  show ?thesis
    using True p e recordFrame_counters [of cfg now res "metricsService sv"]
    by (cases org) (simp_all add: Let_def)
qed

text \<open>
  Claim C10. A call of \<open>processNextFrame\<close> that finds the queue non-empty takes the newest
  frame and leaves the queue empty, whatever the capacity. The steps that make this call (a
  timer tick, an arrival) leave the metrics service as it was, and when the call settles the
  dropped and total counters are unchanged and the processed counter rises by at most one:
  no counter moves with the number of frames discarded.
\<close>

theorem dequeue_discards_all_uncounted:
  assumes "frameQueue (webrtcService sv) \<noteq> []"
  shows "processNextFrame_begin (webrtcService sv) =
           (Some (last (frameQueue (webrtcService sv))),
            (webrtcService sv)\<lparr> isProcessing := True, frameQueue := [] \<rparr>) \<and>
         frameQueue (snd (processNextFrame detect ts (webrtcService sv))) = [] \<and>
         (\<not> isProcessing (webrtcService sv) \<longrightarrow>
            frameQueue (webrtcService (step cfg TimerTick sv)) = [] \<and>
            pending (step cfg TimerTick sv) =
              pending sv @ [(last (frameQueue (webrtcService sv)), Timer)]) \<and>
         metricsService (step cfg TimerTick sv) = metricsService sv \<and>
         metricsService (step cfg (PhoneStreamMsg fr) sv) = metricsService sv \<and>
         (\<not> isProcessing (webrtcService sv) \<and> 0 < maxQueueSize cfg \<longrightarrow>
            frameQueue (webrtcService (step cfg (PhoneStreamMsg fr) sv)) = [] \<and>
            pending (step cfg (PhoneStreamMsg fr) sv) = pending sv @ [(fr, PhoneStream)]) \<and>
         droppedFrames (metricsService (step cfg (DetectorSettled k outcome its now) sv)) =
           droppedFrames (metricsService sv) \<and>
         totalFrames (metricsService (step cfg (DetectorSettled k outcome its now) sv)) =
           totalFrames (metricsService sv) \<and>
         processedFrames (metricsService (step cfg (DetectorSettled k outcome its now) sv)) \<le>
           processedFrames (metricsService sv) + 1"
proof -
  have a: "processNextFrame_begin (webrtcService sv) =
           (Some (last (frameQueue (webrtcService sv))),
            (webrtcService sv)\<lparr> isProcessing := True, frameQueue := [] \<rparr>)"
    using assms by (rule processNextFrame_begin_nonempty)
  have b: "frameQueue (snd (processNextFrame detect ts (webrtcService sv))) = []"
    using a by (simp add: processNextFrame_def processNextFrame_end_def split: sum.splits)
  have c: "\<not> isProcessing (webrtcService sv) \<longrightarrow>
            frameQueue (webrtcService (step cfg TimerTick sv)) = [] \<and>
            pending (step cfg TimerTick sv) =
              pending sv @ [(last (frameQueue (webrtcService sv)), Timer)]"
    using step_TimerTick_idle [of sv cfg] assms by simp
  have d: "metricsService (step cfg TimerTick sv) = metricsService sv"
    using a assms by simp
  have e: "metricsService (step cfg (PhoneStreamMsg fr) sv) = metricsService sv"
    by (cases "handlePhoneFrame (maxQueueSize cfg) fr (webrtcService sv)")
      (auto simp: recordFrame_def split: option.splits)
  have f: "\<not> isProcessing (webrtcService sv) \<and> 0 < maxQueueSize cfg \<longrightarrow>
            frameQueue (webrtcService (step cfg (PhoneStreamMsg fr) sv)) = [] \<and>
            pending (step cfg (PhoneStreamMsg fr) sv) = pending sv @ [(fr, PhoneStream)]"
  proof (intro impI, elim conjE)
    assume idle: "\<not> isProcessing (webrtcService sv)" and cap: "0 < maxQueueSize cfg"
    from handlePhoneFrame_accepts [OF cap, of fr "webrtcService sv"]
    obtain st ws where h: "handlePhoneFrame (maxQueueSize cfg) fr (webrtcService sv) = Inr (st, ws)"
      by blast
    from handlePhoneFrame_idle [OF idle h] have "st = Some fr" "frameQueue ws = []" by simp_all
    with h show "frameQueue (webrtcService (step cfg (PhoneStreamMsg fr) sv)) = [] \<and>
            pending (step cfg (PhoneStreamMsg fr) sv) = pending sv @ [(fr, PhoneStream)]"
      by simp
  qed
  from a b c d e f step_DetectorSettled_counters [of cfg k outcome its now sv]
  show ?thesis by blast
qed

theorem dequeue_discards_all_uncounted_witness:
  "frameQueue (webrtcService backlog_server) \<noteq> [] \<and>
   step default_config TimerTick backlog_server =
     \<lparr> webrtcService = \<lparr> frameQueue = [], isProcessing = True \<rparr>,
       metricsService = new_metrics_service, pending = [(fr3, Timer)], emitted = [] \<rparr>"
proof -
  have h: "frameQueue (webrtcService backlog_server) \<noteq> []" by (simp add: backlog_server_def)
  from dequeue_discards_all_uncounted [OF h, of "\<lambda>img. Inr []" 0 default_config fr1 0 "Inr []" 0 0] h
  show ?thesis by (simp add: backlog_server_def processNextFrame_begin_def)
qed

section \<open>Association of detections with tracks\<close>

lemma find_best_char:
  assumes "find_best row uD k = (bj, bc)"
  shows "(bj = None \<longrightarrow> bc = None \<and> (\<forall>j < k. j \<notin> set uD)) \<and>
         (\<forall>j. bj = Some j \<longrightarrow>
            j < k \<and> j \<in> set uD \<and> bc = Some (row ! j) \<and>
            (\<forall>j' < k. j' \<in> set uD \<longrightarrow> row ! j \<le> row ! j' \<and> (j' < j \<longrightarrow> row ! j < row ! j')))"
  using assms
proof (induction k arbitrary: bj bc)
  case 0
  then show ?case by (simp add: find_best_def)
next
  case (Suc k)
  obtain bj0 bc0 where prev: "find_best row uD k = (bj0, bc0)"
    by (cases "find_best row uD k")
  note ih = Suc.IH [OF prev]
  from Suc.prems prev have step: "best_step row uD (bj0, bc0) k = (bj, bc)"
    by (simp add: find_best_def)
  show ?case
  proof (cases "k \<in> set uD \<and> below (row ! k) bc0")
    case True
    with step have new: "bj = Some k" "bc = Some (row ! k)"
      by (simp_all add: best_step_def)
    have lt: "row ! k < row ! j'" if "j' < k" "j' \<in> set uD" for j'
    proof (cases bj0)
      case None
      with ih that show ?thesis by simp
    next
      case (Some j0)
      with ih have "bc0 = Some (row ! j0)" and "row ! j0 \<le> row ! j'"
        using that by simp_all
      with True show ?thesis by (simp add: below_def)
    qed
    then have "row ! k \<le> row ! j'" if "j' < k" "j' \<in> set uD" for j'
      using that by (simp add: less_imp_le)
    with lt new True show ?thesis
      by (auto simp: less_Suc_eq)
  next
    case False
    with step have same: "bj = bj0" "bc = bc0"
      by (simp_all add: best_step_def)
    show ?thesis
    proof (cases bj0)
      case None
      with ih have "bc0 = None" and "\<forall>j < k. j \<notin> set uD" by simp_all
      with False have "k \<notin> set uD" by (simp add: below_def)
      with None same ih show ?thesis by (auto simp: less_Suc_eq)
    next
      case (Some j0)
      with ih have j0: "j0 < k" "j0 \<in> set uD" "bc0 = Some (row ! j0)"
        and mn: "\<forall>j' < k. j' \<in> set uD \<longrightarrow> row ! j0 \<le> row ! j' \<and> (j' < j0 \<longrightarrow> row ! j0 < row ! j')"
        by simp_all
      from False j0 have "k \<in> set uD \<longrightarrow> row ! j0 \<le> row ! k"
        by (auto simp: below_def)
      with Some same j0 mn show ?thesis
        by (auto simp: less_Suc_eq)
    qed
  qed
qed

lemma removeAll_filter: "removeAll x (filter P xs) = filter (\<lambda>y. P y \<and> y \<noteq> x) xs"
  by (induction xs) auto

lemma taken_before_snoc:
  assumes "i \<le> k"
  shows "taken_before (M @ [(k, j)]) i j' = taken_before M i j'"
  using assms by (auto simp: taken_before_def)

lemma taken_before_all:
  assumes "\<forall>p \<in> set M. fst p < k"
  shows "taken_before M k j' \<longleftrightarrow> j' \<in> snd ` set M"
  using assms by (auto simp: taken_before_def)

lemma rowwise_greedy_skip:
  assumes rg: "rowwise_greedy thr cm k n M"
    and un: "\<forall>j' < n. j' \<notin> snd ` set M \<longrightarrow> thr \<le> cm ! k ! j'"
  shows "rowwise_greedy thr cm (Suc k) n M"
proof -
  from rg have lt: "\<forall>p \<in> set M. fst p < k" by (simp add: rowwise_greedy_def)
  then have notin: "k \<notin> fst ` set M" by auto
  have "\<forall>j' < n. \<not> taken_before M k j' \<longrightarrow> thr \<le> cm ! k ! j'"
    using un taken_before_all [OF lt] by simp
  with rg show ?thesis
    unfolding rowwise_greedy_def by (auto simp: less_Suc_eq)
qed

lemma rowwise_greedy_commit:
  assumes rg: "rowwise_greedy thr cm k n M"
    and j: "j < n" "j \<notin> snd ` set M" "cm ! k ! j < thr"
    and best: "\<forall>j' < n. j' \<notin> snd ` set M \<longrightarrow>
                 cm ! k ! j \<le> cm ! k ! j' \<and> (j' < j \<longrightarrow> cm ! k ! j < cm ! k ! j')"
  shows "rowwise_greedy thr cm (Suc k) n (M @ [(k, j)])"
proof -
  from rg have lt: "\<forall>p \<in> set M. fst p < k" by (simp add: rowwise_greedy_def)
  have s: "sorted_wrt (<) (map fst (M @ [(k, j)]))"
    using rg lt by (auto simp: rowwise_greedy_def sorted_wrt_append)
  have d: "distinct (map snd (M @ [(k, j)]))"
    using rg j(2) by (auto simp: rowwise_greedy_def)
  have old: "fst p < Suc k \<and> snd p < n \<and> cm ! fst p ! snd p < thr \<and>
         (\<forall>j' < n. \<not> taken_before (M @ [(k, j)]) (fst p) j' \<longrightarrow>
            cm ! fst p ! snd p \<le> cm ! fst p ! j' \<and>
            (j' < snd p \<longrightarrow> cm ! fst p ! snd p < cm ! fst p ! j'))" if "p \<in> set M" for p
  proof -
    from lt that have "fst p \<le> k" "fst p < Suc k" by auto
    with rg that taken_before_snoc [of "fst p" k M j] show ?thesis
      by (simp add: rowwise_greedy_def)
  qed
  have new: "\<forall>j' < n. \<not> taken_before (M @ [(k, j)]) k j' \<longrightarrow>
            cm ! k ! j \<le> cm ! k ! j' \<and> (j' < j \<longrightarrow> cm ! k ! j < cm ! k ! j')"
    using best taken_before_all [OF lt] taken_before_snoc [of k k M j] by simp
  have un: "\<forall>j' < n. \<not> taken_before (M @ [(k, j)]) i j' \<longrightarrow> thr \<le> cm ! i ! j'"
    if "i < Suc k" "i \<notin> fst ` set (M @ [(k, j)])" for i
  proof -
    from that have "i < k" "i \<notin> fst ` set M" by (auto simp: less_Suc_eq)
    with rg taken_before_snoc [of i k M j] show ?thesis
      by (simp add: rowwise_greedy_def)
  qed
  show ?thesis
    unfolding rowwise_greedy_def
  proof (intro conjI ballI allI impI)
    show "sorted_wrt (<) (map fst (M @ [(k, j)]))" by (rule s)
    show "distinct (map snd (M @ [(k, j)]))" by (rule d)
  next
    fix p assume p: "p \<in> set (M @ [(k, j)])"
    then consider "p \<in> set M" | "p = (k, j)" by auto
    then have all: "fst p < Suc k \<and> snd p < n \<and> cm ! fst p ! snd p < thr \<and>
         (\<forall>j' < n. \<not> taken_before (M @ [(k, j)]) (fst p) j' \<longrightarrow>
            cm ! fst p ! snd p \<le> cm ! fst p ! j' \<and>
            (j' < snd p \<longrightarrow> cm ! fst p ! snd p < cm ! fst p ! j'))"
    proof cases
      case 1
      then show ?thesis by (rule old)
    next
      case 2
      with j new show ?thesis by simp
    qed
    from all show "fst p < Suc k" by simp
    from all show "snd p < n" by simp
    from all show "cm ! fst p ! snd p < thr" by simp
    fix j' assume "j' < n" "\<not> taken_before (M @ [(k, j)]) (fst p) j'"
    with all show "cm ! fst p ! snd p \<le> cm ! fst p ! j'" by simp
    assume "j' < snd p"
    with all \<open>j' < n\<close> \<open>\<not> taken_before (M @ [(k, j)]) (fst p) j'\<close>
    show "cm ! fst p ! snd p < cm ! fst p ! j'" by simp
  next
    fix i j' assume "i < Suc k" "i \<notin> fst ` set (M @ [(k, j)])" "j' < n"
      "\<not> taken_before (M @ [(k, j)]) i j'"
    with un show "thr \<le> cm ! i ! j'" by blast
  qed
qed

lemma assign_step_inv:
  assumes "assign_inv thr cm m n k a"
  shows "assign_inv thr cm m n (Suc k) (assign_step thr cm n a k)"
proof -
  let ?M = "matched a"
  from assms have rg: "rowwise_greedy thr cm k n ?M"
    and uT: "unmatchedTracks a = filter (\<lambda>i. i \<notin> fst ` set ?M) [0..<m]"
    and uD: "unmatchedDetections a = filter (\<lambda>j. j \<notin> snd ` set ?M) [0..<n]"
    by (simp_all add: assign_inv_def)
  from uD have mem: "j \<in> set (unmatchedDetections a) \<longleftrightarrow> j < n \<and> j \<notin> snd ` set ?M" for j
    by auto
  obtain bj bc where fb: "find_best (cm ! k) (unmatchedDetections a) n = (bj, bc)"
    by (cases "find_best (cm ! k) (unmatchedDetections a) n")
  note ch = find_best_char [OF fb]
  show ?thesis
  proof (cases bj)
    case None
    with ch have "bc = None" and "\<forall>j < n. j \<notin> set (unmatchedDetections a)" by simp_all
    then have "\<forall>j' < n. j' \<notin> snd ` set ?M \<longrightarrow> thr \<le> cm ! k ! j'"
      using mem by blast
    from rowwise_greedy_skip [OF rg this] None fb uT uD show ?thesis
      by (simp add: assign_inv_def assign_step_def)
  next
    case (Some j)
    with ch have j: "j < n" "j \<in> set (unmatchedDetections a)" "bc = Some (cm ! k ! j)"
      and best: "\<forall>j' < n. j' \<in> set (unmatchedDetections a) \<longrightarrow>
                   cm ! k ! j \<le> cm ! k ! j' \<and> (j' < j \<longrightarrow> cm ! k ! j < cm ! k ! j')"
      by simp_all
    from j mem have jn: "j \<notin> snd ` set ?M" by simp
    from best mem have best': "\<forall>j' < n. j' \<notin> snd ` set ?M \<longrightarrow>
                   cm ! k ! j \<le> cm ! k ! j' \<and> (j' < j \<longrightarrow> cm ! k ! j < cm ! k ! j')"
      by simp
    show ?thesis
    proof (cases "cm ! k ! j < thr")
      case True
      have st: "assign_step thr cm n a k =
            \<lparr> matched = ?M @ [(k, j)],
              unmatchedTracks = removeAll k (unmatchedTracks a),
              unmatchedDetections = removeAll j (unmatchedDetections a) \<rparr>"
        using fb Some j True by (simp add: assign_step_def)
      have t: "removeAll k (unmatchedTracks a) =
                 filter (\<lambda>i. i \<notin> fst ` set (?M @ [(k, j)])) [0..<m]"
        unfolding uT removeAll_filter by (rule filter_cong) auto
      have d: "removeAll j (unmatchedDetections a) =
                 filter (\<lambda>j'. j' \<notin> snd ` set (?M @ [(k, j)])) [0..<n]"
        unfolding uD removeAll_filter by (rule filter_cong) auto
      from rowwise_greedy_commit [OF rg j(1) jn True best'] t d show ?thesis
        by (simp add: assign_inv_def st)
    next
      case False
      then have "\<forall>j' < n. j' \<notin> snd ` set ?M \<longrightarrow> thr \<le> cm ! k ! j'"
        using best' by fastforce
      from rowwise_greedy_skip [OF rg this] False Some j fb uT uD show ?thesis
        by (simp add: assign_inv_def assign_step_def)
    qed
  qed
qed

lemma greedy_assign_inv:
  "assign_inv thr cm m n k
     (foldl (assign_step thr cm n)
        \<lparr> matched = [], unmatchedTracks = [0..<m], unmatchedDetections = [0..<n] \<rparr> [0..<k])"
proof (induction k)
  case 0
  show ?case by (simp add: assign_inv_def rowwise_greedy_def)
next
  case (Suc k)
  from assign_step_inv [OF Suc] show ?case by simp
qed

lemma greedy_assign_rowwise:
  "rowwise_greedy thr cm m n (matched (greedy_assign thr cm m n)) \<and>
   unmatchedTracks (greedy_assign thr cm m n) =
     filter (\<lambda>i. i \<notin> fst ` set (matched (greedy_assign thr cm m n))) [0..<m] \<and>
   unmatchedDetections (greedy_assign thr cm m n) =
     filter (\<lambda>j. j \<notin> snd ` set (matched (greedy_assign thr cm m n))) [0..<n]"
  using greedy_assign_inv [of thr cm m n m]
  by (simp add: assign_inv_def greedy_assign_def)

text \<open>Every index that \<open>associate\<close> returns is a position of a track or of a detection.\<close>

lemma associate_in_range:
  "(\<forall>p \<in> set (matched (associate T dets)). fst p < length (tracks T) \<and> snd p < length dets) \<and>
   (\<forall>i \<in> set (unmatchedTracks (associate T dets)). i < length (tracks T)) \<and>
   (\<forall>j \<in> set (unmatchedDetections (associate T dets)). j < length dets)"
proof -
  note g = greedy_assign_rowwise
    [of "1 - iouThreshold T" "costMatrix T dets" "length (track_values T)" "length dets"]
  have l: "length (track_values T) = length (tracks T)" by (simp add: track_values_def)
  from g have "\<forall>p \<in> set (matched (associate T dets)). fst p < length (tracks T) \<and> snd p < length dets"
    by (simp add: associate_def rowwise_greedy_def l)
  moreover from g have "\<forall>i \<in> set (unmatchedTracks (associate T dets)). i < length (tracks T)"
    by (simp add: associate_def l)
  moreover from g have "\<forall>j \<in> set (unmatchedDetections (associate T dets)). j < length dets"
    by (simp add: associate_def)
  ultimately show ?thesis by blast
qed

text \<open>The description determines the matching: two matchings that both satisfy it are equal.\<close>

lemma distinct_snd_eq:
  assumes "distinct (map snd M)" and "p \<in> set M" and "q \<in> set M" and "snd p = snd q"
  shows "p = q"
  using assms by (meson distinct_map inj_onD)

lemma rowwise_greedy_untaken:
  assumes rg: "rowwise_greedy thr cm m n M" and p: "p \<in> set M"
  shows "\<not> taken_before M (fst p) (snd p)"
proof
  assume "taken_before M (fst p) (snd p)"
  then obtain q where q: "q \<in> set M" "fst q < fst p" "snd q = snd p"
    by (auto simp: taken_before_def)
  from rg have "distinct (map snd M)" by (simp add: rowwise_greedy_def)
  from distinct_snd_eq [OF this q(1) p q(3)] q(2) show False by simp
qed

lemma rowwise_greedy_row:
  assumes rg: "rowwise_greedy thr cm m n M" and rg': "rowwise_greedy thr cm m n M'"
    and agree: "\<forall>q. fst q < fst p \<longrightarrow> (q \<in> set M \<longleftrightarrow> q \<in> set M')"
    and p: "p \<in> set M"
  shows "p \<in> set M'"
proof -
  let ?k = "fst p" and ?j = "snd p"
  have tk: "taken_before M ?k j' = taken_before M' ?k j'" for j'
    using agree by (auto simp: taken_before_def)
  from rg p have k: "?k < m" and j: "?j < n" and c: "cm ! ?k ! ?j < thr"
    and mn: "\<forall>j' < n. \<not> taken_before M ?k j' \<longrightarrow>
               cm ! ?k ! ?j \<le> cm ! ?k ! j' \<and> (j' < ?j \<longrightarrow> cm ! ?k ! ?j < cm ! ?k ! j')"
    by (simp_all add: rowwise_greedy_def)
  from rowwise_greedy_untaken [OF rg p] tk have free: "\<not> taken_before M' ?k ?j" by simp
  show ?thesis
  proof (cases "?k \<in> fst ` set M'")
    case False
    with rg' k have "\<forall>j' < n. \<not> taken_before M' ?k j' \<longrightarrow> thr \<le> cm ! ?k ! j'"
      by (simp add: rowwise_greedy_def)
    with j free c show ?thesis by fastforce
  next
    case True
    then obtain q where q: "q \<in> set M'" "fst q = ?k" by auto
    from rg' q have j': "snd q < n"
      and mn': "\<forall>j' < n. \<not> taken_before M' ?k j' \<longrightarrow>
               cm ! ?k ! snd q \<le> cm ! ?k ! j' \<and> (j' < snd q \<longrightarrow> cm ! ?k ! snd q < cm ! ?k ! j')"
      by (auto simp: rowwise_greedy_def)
    from rowwise_greedy_untaken [OF rg' q(1)] q(2) tk have free': "\<not> taken_before M ?k (snd q)"
      by simp
    from mn j' free' have a: "cm ! ?k ! ?j \<le> cm ! ?k ! snd q"
      "snd q < ?j \<longrightarrow> cm ! ?k ! ?j < cm ! ?k ! snd q" by simp_all
    from mn' j free have b: "cm ! ?k ! snd q \<le> cm ! ?k ! ?j"
      "?j < snd q \<longrightarrow> cm ! ?k ! snd q < cm ! ?k ! ?j" by simp_all
    from a b have "snd q = ?j" by (cases "snd q < ?j"; cases "?j < snd q") simp_all
    with q(2) have "q = p" by (simp add: prod_eq_iff)
    with q(1) show ?thesis by simp
  qed
qed

lemma rowwise_greedy_same_set:
  assumes rg: "rowwise_greedy thr cm m n M" and rg': "rowwise_greedy thr cm m n M'"
  shows "set M = set M'"
proof -
  have "\<forall>p. fst p < k \<longrightarrow> (p \<in> set M \<longleftrightarrow> p \<in> set M')" for k
  proof (induction k)
    case 0
    show ?case by simp
  next
    case (Suc k)
    show ?case
    proof (intro allI impI)
      fix p :: "nat \<times> nat" assume lt: "fst p < Suc k"
      have ag: "\<forall>q. fst q < fst p \<longrightarrow> (q \<in> set M \<longleftrightarrow> q \<in> set M')"
        using Suc lt by simp
      then have ag': "\<forall>q. fst q < fst p \<longrightarrow> (q \<in> set M' \<longleftrightarrow> q \<in> set M)" by simp
      show "p \<in> set M \<longleftrightarrow> p \<in> set M'"
        using rowwise_greedy_row [OF rg rg' ag] rowwise_greedy_row [OF rg' rg ag'] by blast
    qed
  qed
  then have "p \<in> set M \<longleftrightarrow> p \<in> set M'" for p
    by (meson lessI)
  then show ?thesis by blast
qed

lemma rowwise_greedy_unique:
  assumes rg: "rowwise_greedy thr cm m n M" and rg': "rowwise_greedy thr cm m n M'"
  shows "M = M'"
proof -
  have s: "set M = set M'" using rg rg' by (rule rowwise_greedy_same_set)
  from rg rg' have srt: "sorted_wrt (<) (map fst M)" "sorted_wrt (<) (map fst M')"
    by (simp_all add: rowwise_greedy_def)
  from s have "set (map fst M) = set (map fst M')" by simp
  with srt have keys: "map fst M = map fst M'" by (intro strict_sorted_equal)
  then have len: "length M = length M'" by (rule map_eq_imp_length_eq)
  from srt(2) have d: "distinct (map fst M')" by (simp add: strict_sorted_iff)
  show ?thesis
  proof (rule nth_equalityI [OF len])
    fix i assume i: "i < length M"
    then have "M ! i \<in> set M'" using s by (metis nth_mem)
    then obtain j where j: "j < length M'" "M' ! j = M ! i" by (auto simp: in_set_conv_nth)
    from keys i len have "fst (M ! i) = fst (M' ! i)"
      by (metis nth_map)
    with j have e: "map fst M' ! j = map fst M' ! i" using i len by simp
    have "j < length (map fst M')" "i < length (map fst M')" using j(1) i len by simp_all
    with d e have "j = i" by (simp only: nth_eq_iff_index_eq)
    with j(2) show "M ! i = M' ! i" by simp
  qed
qed

lemma costMatrix_nth:
  assumes "i < length (track_values T)" and "j < length dets"
  shows "costMatrix T dets ! i ! j = 1 - calculateIoU (prediction (track_values T ! i)) (dets ! j)"
  using assms by (simp add: costMatrix_def)

text \<open>
  Claim C6 as stated fails. Two tracks made from two overlapping detections, then a batch of
  two detections: track 0 is visited first and takes detection 0 (cost \<open>1/3\<close>), its own best,
  leaving detection 1 to track 1; the scheme of the specification commits the globally
  cheapest cell first, track 1 with detection 0 (cost \<open>0\<close>), and then track 0 with detection 1.
\<close>

theorem association_counterexample:
  "set (matched (associate crowded_tracker [det_b, det_c])) \<noteq>
   set (associate_spec crowded_tracker [det_b, det_c])"
proof -
  have a: "matched (associate crowded_tracker [det_b, det_c]) = [(0, 0), (1, 1)]"
    by code_simp
  have b: "associate_spec crowded_tracker [det_b, det_c] = [(1, 0), (0, 1)]"
    by code_simp
  have "(0 :: nat, 0 :: nat) \<in> set [(0, 0), (1, 1)]" by simp
  moreover have "(0 :: nat, 0 :: nat) \<notin> set [(1, 0), (0, 1)]" by simp
  ultimately have "set [(0 :: nat, 0 :: nat), (1, 1)] \<noteq> set [(1, 0), (0, 1)]" by metis
  with a b show ?thesis by simp
qed

text \<open>
  Claim C6, amended. \<open>associate\<close> visits the tracks in index order; each track is matched to
  the detection of lowest cost (\<open>1 - IoU\<close> of the track's predicted box and the detection box)
  among the detections not committed to an earlier track, the lowest index winning on equal
  cost, provided that cost is strictly below \<open>1 - iouThreshold\<close>; otherwise the track stays
  unmatched. The unmatched tracks and detections are those in no pair, in index order. No
  other matching fits this description.
\<close>

theorem associate_rowwise_greedy:
  "rowwise_greedy (1 - iouThreshold T) (costMatrix T dets) (length (track_values T)) (length dets)
     (matched (associate T dets)) \<and>
   unmatchedTracks (associate T dets) =
     filter (\<lambda>i. i \<notin> fst ` set (matched (associate T dets))) [0..<length (track_values T)] \<and>
   unmatchedDetections (associate T dets) =
     filter (\<lambda>j. j \<notin> snd ` set (matched (associate T dets))) [0..<length dets] \<and>
   (\<forall>i < length (track_values T). \<forall>j < length dets.
      costMatrix T dets ! i ! j = 1 - calculateIoU (prediction (track_values T ! i)) (dets ! j)) \<and>
   (\<forall>M. rowwise_greedy (1 - iouThreshold T) (costMatrix T dets) (length (track_values T))
          (length dets) M \<longrightarrow> M = matched (associate T dets))"
proof -
  note g = greedy_assign_rowwise
    [of "1 - iouThreshold T" "costMatrix T dets" "length (track_values T)" "length dets"]
  then have r: "rowwise_greedy (1 - iouThreshold T) (costMatrix T dets) (length (track_values T))
      (length dets) (matched (associate T dets))"
    by (simp add: associate_def)
  have u: "M = matched (associate T dets)"
    if "rowwise_greedy (1 - iouThreshold T) (costMatrix T dets) (length (track_values T))
          (length dets) M" for M
    using that r by (rule rowwise_greedy_unique)
  from g r u costMatrix_nth [of _ T _ dets] show ?thesis
    by (simp add: associate_def)
qed

theorem associate_rowwise_greedy_witness:
  "matched (associate crowded_tracker [det_b, det_c]) = [(0, 0), (1, 1)] \<and>
   rowwise_greedy (7 / 10) (costMatrix crowded_tracker [det_b, det_c]) 2 2 [(0, 0), (1, 1)] \<and>
   unmatchedTracks (associate crowded_tracker [det_b, det_c]) = [] \<and>
   unmatchedDetections (associate crowded_tracker [det_b, det_c]) = []"
proof -
  have a: "matched (associate crowded_tracker [det_b, det_c]) = [(0, 0), (1, 1)]"
    by code_simp
  have b: "iouThreshold crowded_tracker = 3 / 10" "length (track_values crowded_tracker) = 2"
    by code_simp+
  have c: "unmatchedTracks (associate crowded_tracker [det_b, det_c]) = []"
    "unmatchedDetections (associate crowded_tracker [det_b, det_c]) = []"
    by code_simp+
  from associate_rowwise_greedy [of crowded_tracker "[det_b, det_c]", THEN conjunct1]
  have "rowwise_greedy (7 / 10) (costMatrix crowded_tracker [det_b, det_c]) 2 2 [(0, 0), (1, 1)]"
    unfolding a b by (simp add: numeral_2_eq_2)
  with a c show ?thesis by simp
qed

section \<open>Track identifiers across update cycles\<close>

lemma hits_shift_trans:
  assumes "hits_shift c T T1" and "hits_shift d T1 T2"
  shows "hits_shift (\<lambda>i. c i + d i) T T2"
  using assms by (simp add: hits_shift_def)

lemma hits_shift_predict: "hits_shift (\<lambda>i. 0) T (predict T)"
  by (simp add: hits_shift_def predict_def predict_track_def split_beta)

lemma hits_shift_markLost: "hits_shift (\<lambda>i. 0) T (markLost idx T)"
  by (auto simp: hits_shift_def markLost_def nth_list_update split: prod.splits)

lemma hits_shift_updateTrack:
  "hits_shift (\<lambda>i. if i = idx then 1 else 0) T (updateTrack idx det fid now T)"
  by (auto simp: hits_shift_def updateTrack_def Let_def nth_list_update split: prod.splits)

lemma hits_shift_fold_updateTrack:
  "hits_shift (\<lambda>i. int (count_list (map fst M) i)) T
     (foldl (\<lambda>S (trackIdx, detIdx). updateTrack trackIdx (dets ! detIdx) fid now S) T M)"
proof (induction M rule: rev_induct)
  case Nil
  show ?case by (simp add: hits_shift_def)
next
  case (snoc p M)
  obtain i j where p: "p = (i, j)" by (cases p)
  let ?S = "foldl (\<lambda>S (trackIdx, detIdx). updateTrack trackIdx (dets ! detIdx) fid now S) T M"
  from hits_shift_trans [OF snoc hits_shift_updateTrack [of i ?S "dets ! j" fid now]]
  have "hits_shift (\<lambda>k. int (count_list (map fst M) k) + (if k = i then 1 else 0)) T
          (updateTrack i (dets ! j) fid now ?S)" .
  moreover have "(\<lambda>k. int (count_list (map fst M) k) + (if k = i then 1 else 0)) =
                 (\<lambda>k. int (count_list (map fst (M @ [p])) k))"
    using p by (auto simp: fun_eq_iff)
  ultimately show ?case using p by simp
qed

lemma hits_shift_fold_markLost:
  "hits_shift (\<lambda>i. 0) T (foldl (\<lambda>S trackIdx. markLost trackIdx S) T is)"
proof (induction "is" rule: rev_induct)
  case Nil
  show ?case by (simp add: hits_shift_def)
next
  case (snoc i "is")
  from hits_shift_trans [OF snoc hits_shift_markLost [of _ i]] show ?case by simp
qed

lemma AList_update_fresh:
  assumes "k \<notin> fst ` set xs"
  shows "AList.update k v xs = xs @ [(k, v)]"
  using assms by (induction xs) auto

lemma foldl_AList_delete:
  "foldl (\<lambda>m k. AList.delete k m) xs ks = filter (\<lambda>p. fst p \<notin> set ks) xs"
proof (induction ks arbitrary: xs)
  case Nil
  show ?case by simp
next
  case (Cons k ks)
  have "AList.delete k xs = filter (\<lambda>p. fst p \<noteq> k) xs"
    by (induction xs) auto
  with Cons [of "AList.delete k xs"] show ?case
    by (simp add: conj_commute)
qed

lemma createTrack_fresh:
  assumes "\<forall>p \<in> set (tracks T). fst p < nextTrackId T"
  shows "\<exists>t. tracks (createTrack det fid now T) = tracks T @ [(nextTrackId T, t)] \<and>
             id_t t = nextTrackId T \<and> hits t = 1"
proof -
  from assms have "nextTrackId T \<notin> fst ` set (tracks T)" by auto
  then show ?thesis
    by (simp add: createTrack_def Let_def AList_update_fresh)
qed

lemma createTrack_params:
  "nextTrackId (createTrack det fid now T) = nextTrackId T + 1 \<and>
   minHits (createTrack det fid now T) = minHits T \<and>
   maxAge (createTrack det fid now T) = maxAge T \<and>
   iouThreshold (createTrack det fid now T) = iouThreshold T"
  by (simp add: createTrack_def Let_def)

lemma fold_createTrack:
  assumes "\<forall>p \<in> set (tracks T). fst p < nextTrackId T"
  shows "\<exists>new. tracks (foldl (\<lambda>S detIdx. createTrack (dets ! detIdx) fid now S) T js) = tracks T @ new \<and>
           nextTrackId (foldl (\<lambda>S detIdx. createTrack (dets ! detIdx) fid now S) T js) =
             nextTrackId T + length js \<and>
           map fst new = [nextTrackId T ..< nextTrackId T + length js] \<and>
           (\<forall>p \<in> set new. id_t (snd p) = fst p \<and> hits (snd p) = 1) \<and>
           minHits (foldl (\<lambda>S detIdx. createTrack (dets ! detIdx) fid now S) T js) = minHits T \<and>
           maxAge (foldl (\<lambda>S detIdx. createTrack (dets ! detIdx) fid now S) T js) = maxAge T \<and>
           iouThreshold (foldl (\<lambda>S detIdx. createTrack (dets ! detIdx) fid now S) T js) = iouThreshold T"
proof (induction js rule: rev_induct)
  case Nil
  show ?case by simp
next
  case (snoc j js)
  let ?S = "foldl (\<lambda>S detIdx. createTrack (dets ! detIdx) fid now S) T js"
  from snoc obtain new where n: "tracks ?S = tracks T @ new"
    "nextTrackId ?S = nextTrackId T + length js"
    "map fst new = [nextTrackId T ..< nextTrackId T + length js]"
    "\<forall>p \<in> set new. id_t (snd p) = fst p \<and> hits (snd p) = 1"
    "minHits ?S = minHits T" "maxAge ?S = maxAge T" "iouThreshold ?S = iouThreshold T"
    by blast
  have "fst p < nextTrackId ?S" if "p \<in> set (tracks ?S)" for p
  proof -
    from that n(1) consider "p \<in> set (tracks T)" | "p \<in> set new" by auto
    then show ?thesis
    proof cases
      case 1
      with assms n(2) show ?thesis by fastforce
    next
      case 2
      then have "fst p \<in> set (map fst new)" by simp
      with n(2,3) show ?thesis by simp
    qed
  qed
  then have "\<forall>p \<in> set (tracks ?S). fst p < nextTrackId ?S" by blast
  from createTrack_fresh [OF this, of "dets ! j" fid now]
  obtain t where t: "tracks (createTrack (dets ! j) fid now ?S) = tracks ?S @ [(nextTrackId ?S, t)]"
    "id_t t = nextTrackId ?S" "hits t = 1" by blast
  let ?new = "new @ [(nextTrackId ?S, t)]"
  have "tracks (foldl (\<lambda>S detIdx. createTrack (dets ! detIdx) fid now S) T (js @ [j])) = tracks T @ ?new"
    using t(1) n(1) by simp
  moreover have "map fst ?new = [nextTrackId T ..< nextTrackId T + length (js @ [j])]"
    using n(2,3) by simp
  moreover have "\<forall>p \<in> set ?new. id_t (snd p) = fst p \<and> hits (snd p) = 1"
    using n(4) t(2,3) by auto
  ultimately show ?case
    using n(2,5,6,7) createTrack_params [of "dets ! j" fid now ?S]
    by (intro exI [of _ ?new]) simp
qed

lemma pruneOldTracks_tracks:
  assumes "distinct (map fst (tracks T))"
  shows "tracks (pruneOldTracks T) =
           filter (\<lambda>p. \<not> too_old T (snd p)) (map (\<lambda>(k, t). (k, t\<lparr> age := age t + 1 \<rparr>)) (tracks T))"
proof -
  let ?aged = "map (\<lambda>(k, t). (k, t\<lparr> age := age t + 1 \<rparr>)) (tracks T)"
  let ?rm = "map fst (filter (\<lambda>(k, t). too_old T t) ?aged)"
  have d: "distinct (map fst ?aged)"
    using assms by (simp add: split_beta comp_def)
  have "(fst p \<in> set ?rm) = too_old T (snd p)" if "p \<in> set ?aged" for p
  proof
    assume "fst p \<in> set ?rm"
    then have "fst p \<in> fst ` {q \<in> set ?aged. too_old T (snd q)}"
      by (simp add: split_beta)
    then obtain q where "q \<in> {q \<in> set ?aged. too_old T (snd q)}" and e: "fst p = fst q"
      by (rule imageE)
    then have q: "q \<in> set ?aged" "too_old T (snd q)" by simp_all
    have "(fst p, snd q) \<in> set ?aged" using q(1) e by simp
    moreover have "(fst p, snd p) \<in> set ?aged" using that by simp
    ultimately have "snd q = snd p" using d by (rule eq_key_imp_eq_value [rotated])
    with q(2) show "too_old T (snd p)" by simp
  next
    assume "too_old T (snd p)"
    with that show "fst p \<in> set ?rm" by (force simp: split_beta)
  qed
  then have "filter (\<lambda>p. fst p \<notin> set ?rm) ?aged = filter (\<lambda>p. \<not> too_old T (snd p)) ?aged"
    by (intro filter_cong) auto
  then show ?thesis
    by (simp add: pruneOldTracks_def Let_def foldl_AList_delete)
qed

lemma pruneOldTracks_params:
  "nextTrackId (pruneOldTracks T) = nextTrackId T \<and> minHits (pruneOldTracks T) = minHits T \<and>
   maxAge (pruneOldTracks T) = maxAge T \<and> iouThreshold (pruneOldTracks T) = iouThreshold T"
  by (simp add: pruneOldTracks_def Let_def)

lemma hits_shift_keys:
  assumes "hits_shift c T T'"
  shows "map fst (tracks T') = map fst (tracks T)"
  using assms by (intro nth_equalityI) (simp_all add: hits_shift_def)

lemma hits_shift_ids:
  assumes "hits_shift c T T'" and "\<forall>p \<in> set (tracks T). id_t (snd p) = fst p"
  shows "\<forall>p \<in> set (tracks T'). id_t (snd p) = fst p"
proof
  fix p assume "p \<in> set (tracks T')"
  then obtain i where i: "i < length (tracks T')" "p = tracks T' ! i"
    by (auto simp: in_set_conv_nth)
  with assms(1) have "i < length (tracks T)" "fst p = fst (tracks T ! i)"
    "id_t (snd p) = id_t (snd (tracks T ! i))"
    by (simp_all add: hits_shift_def)
  with assms(2) show "id_t (snd p) = fst p" by simp
qed

lemma aged_filter_source:
  assumes "p \<in> set (filter Q (map (\<lambda>(k, t). (k, t\<lparr> age := age t + 1 \<rparr>)) xs))"
  shows "\<exists>q \<in> set xs. fst p = fst q \<and> id_t (snd p) = id_t (snd q) \<and> hits (snd p) = hits (snd q)"
proof -
  from assms obtain q where "q \<in> set xs" and "p = (fst q, (snd q)\<lparr> age := age (snd q) + 1 \<rparr>)"
    by (auto simp: split_beta)
  then show ?thesis by (intro bexI [of _ q]) simp_all
qed

lemma update_effect:
  assumes inv: "tracker_inv T"
  shows "tracker_inv (snd (update dets fid now T)) \<and>
         nextTrackId (snd (update dets fid now T)) =
           nextTrackId T + length (unmatchedDetections (associate (predict T) dets)) \<and>
         minHits (snd (update dets fid now T)) = minHits T \<and>
         maxAge (snd (update dets fid now T)) = maxAge T \<and>
         iouThreshold (snd (update dets fid now T)) = iouThreshold T \<and>
         (\<forall>p \<in> set (tracks (snd (update dets fid now T))).
            (\<exists>i < length (tracks T).
               fst p = fst (tracks T ! i) \<and>
               hits (snd p) = hits (snd (tracks T ! i)) + int (count_list (map fst (cycle_matches dets T)) i)) \<or>
            (nextTrackId T \<le> fst p \<and> hits (snd p) = 1))"
proof -
  let ?T1 = "predict T"
  let ?a = "associate ?T1 dets"
  let ?M = "matched ?a"
  let ?T2 = "foldl (\<lambda>S (trackIdx, detIdx). updateTrack trackIdx (dets ! detIdx) fid now S) ?T1 ?M"
  let ?T3 = "foldl (\<lambda>S detIdx. createTrack (dets ! detIdx) fid now S) ?T2 (unmatchedDetections ?a)"
  let ?T4 = "foldl (\<lambda>S trackIdx. markLost trackIdx S) ?T3 (unmatchedTracks ?a)"
  let ?T5 = "pruneOldTracks ?T4"
  let ?n = "nextTrackId T"
  let ?u = "length (unmatchedDetections ?a)"
  have upd: "snd (update dets fid now T) = ?T5"
    by (simp add: update_def Let_def)
  from inv have srt: "sorted_wrt (<) (map fst (tracks T))"
    and idk: "\<forall>p \<in> set (tracks T). id_t (snd p) = fst p"
    and bnd: "\<forall>p \<in> set (tracks T). fst p < ?n"
    by (simp_all add: tracker_inv_def ids_def)
  have hs2: "hits_shift (\<lambda>i. int (count_list (map fst ?M) i)) T ?T2"
    using hits_shift_trans [OF hits_shift_predict hits_shift_fold_updateTrack] by simp
  have k2: "map fst (tracks ?T2) = map fst (tracks T)" using hs2 by (rule hits_shift_keys)
  have n2: "nextTrackId ?T2 = ?n" "minHits ?T2 = minHits T" "maxAge ?T2 = maxAge T"
    "iouThreshold ?T2 = iouThreshold T" "length (tracks ?T2) = length (tracks T)"
    using hs2 by (simp_all add: hits_shift_def)
  have b2: "\<forall>p \<in> set (tracks ?T2). fst p < nextTrackId ?T2"
  proof
    fix p assume "p \<in> set (tracks ?T2)"
    then have "fst p \<in> set (map fst (tracks ?T2))" by simp
    with k2 bnd n2(1) show "fst p < nextTrackId ?T2" by auto
  qed
  from fold_createTrack [OF b2, of dets fid now "unmatchedDetections ?a"]
  obtain new where t3: "tracks ?T3 = tracks ?T2 @ new"
    and n3: "nextTrackId ?T3 = ?n + ?u" "minHits ?T3 = minHits T" "maxAge ?T3 = maxAge T"
      "iouThreshold ?T3 = iouThreshold T"
    and knew: "map fst new = [?n ..< ?n + ?u]"
    and new: "\<forall>p \<in> set new. id_t (snd p) = fst p \<and> hits (snd p) = 1"
    using n2 by auto
  have hs4: "hits_shift (\<lambda>i. 0) ?T3 ?T4" by (rule hits_shift_fold_markLost)
  have k4: "map fst (tracks ?T4) = map fst (tracks T) @ [?n ..< ?n + ?u]"
    using hits_shift_keys [OF hs4] t3 k2 knew by simp
  have n4: "nextTrackId ?T4 = ?n + ?u" "minHits ?T4 = minHits T" "maxAge ?T4 = maxAge T"
    "iouThreshold ?T4 = iouThreshold T"
    using hs4 n3 by (simp_all add: hits_shift_def)
  have s4: "sorted_wrt (<) (map fst (tracks ?T4))"
  proof -
    have "\<forall>x \<in> set (map fst (tracks T)). \<forall>y \<in> set [?n ..< ?n + ?u]. x < y"
      using bnd by fastforce
    with srt show ?thesis
      unfolding k4 by (simp add: sorted_wrt_append sorted_wrt_upt)
  qed
  then have d4: "distinct (map fst (tracks ?T4))"
    by (simp add: strict_sorted_iff)
  have id3: "\<forall>p \<in> set (tracks ?T3). id_t (snd p) = fst p"
    using t3 new hits_shift_ids [OF hs2 idk] by auto
  have id4: "\<forall>p \<in> set (tracks ?T4). id_t (snd p) = fst p"
    using hs4 id3 by (rule hits_shift_ids)
  let ?aged = "map (\<lambda>(k, t). (k, t\<lparr> age := age t + 1 \<rparr>)) (tracks ?T4)"
  have t5: "tracks ?T5 = filter (\<lambda>p. \<not> too_old ?T4 (snd p)) ?aged"
    using d4 by (rule pruneOldTracks_tracks)
  have n5: "nextTrackId ?T5 = ?n + ?u" "minHits ?T5 = minHits T" "maxAge ?T5 = maxAge T"
    "iouThreshold ?T5 = iouThreshold T"
    using pruneOldTracks_params [of ?T4] n4 by simp_all
  have src: "\<exists>q \<in> set (tracks ?T4). fst p = fst q \<and> id_t (snd p) = id_t (snd q) \<and> hits (snd p) = hits (snd q)"
    if "p \<in> set (tracks ?T5)" for p
    using that unfolding t5 by (rule aged_filter_source)
  have s5: "sorted_wrt (<) (map fst (tracks ?T5))"
  proof -
    have "sorted_wrt (\<lambda>p q. fst p < fst q) ?aged"
      using s4 by (simp add: sorted_wrt_map split_beta)
    then have "sorted_wrt (\<lambda>p q. fst p < fst q) (filter (\<lambda>p. \<not> too_old ?T4 (snd p)) ?aged)"
      by (rule sorted_wrt_filter)
    then show ?thesis unfolding t5 by (simp add: sorted_wrt_map)
  qed
  have inv5: "tracker_inv ?T5"
    unfolding tracker_inv_def ids_def
  proof (intro conjI ballI)
    show "sorted_wrt (<) (map fst (tracks ?T5))" by (rule s5)
  next
    fix p assume p: "p \<in> set (tracks ?T5)"
    from src [OF p] obtain q where q: "q \<in> set (tracks ?T4)" "fst p = fst q"
      "id_t (snd p) = id_t (snd q)" by blast
    with id4 show "id_t (snd p) = fst p" by simp
    from q(1) have "fst q \<in> set (map fst (tracks ?T4))" by simp
    then have "fst q < ?n + ?u" unfolding k4 using bnd by fastforce
    with q(2) n5(1) show "fst p < nextTrackId ?T5" by simp
  qed
  have hits5: "(\<exists>i < length (tracks T).
               fst p = fst (tracks T ! i) \<and>
               hits (snd p) = hits (snd (tracks T ! i)) + int (count_list (map fst ?M) i)) \<or>
            (?n \<le> fst p \<and> hits (snd p) = 1)"
    if p: "p \<in> set (tracks ?T5)" for p
  proof -
    from src [OF p] obtain q where q: "q \<in> set (tracks ?T4)" "fst p = fst q"
      "hits (snd p) = hits (snd q)" by blast
    from q(1) obtain i where i: "i < length (tracks ?T4)" "q = tracks ?T4 ! i"
      by (auto simp: in_set_conv_nth)
    from hs4 have l4: "length (tracks ?T4) = length (tracks ?T3)"
      and e4: "\<forall>i < length (tracks ?T3). fst (tracks ?T4 ! i) = fst (tracks ?T3 ! i) \<and>
                 hits (snd (tracks ?T4 ! i)) = hits (snd (tracks ?T3 ! i))"
      by (simp_all add: hits_shift_def)
    from i l4 e4 have q3: "fst q = fst (tracks ?T3 ! i)" "hits (snd q) = hits (snd (tracks ?T3 ! i))"
      and i3: "i < length (tracks ?T3)"
      by simp_all
    show ?thesis
    proof (cases "i < length (tracks T)")
      case True
      with t3 n2(5) have "tracks ?T3 ! i = tracks ?T2 ! i" by (simp add: nth_append)
      with hs2 True q3 q(2,3) show ?thesis
        by (auto simp: hits_shift_def)
    next
      case False
      with t3 n2(5) i3 have m: "tracks ?T3 ! i \<in> set new"
        by (simp add: nth_append)
      then have "fst (tracks ?T3 ! i) \<in> set (map fst new)" by simp
      with knew have "?n \<le> fst (tracks ?T3 ! i)" by simp
      with m new q3 q(2,3) show ?thesis by simp
    qed
  qed
  from inv5 n5 hits5 show ?thesis
    unfolding upd cycle_matches_def by blast
qed

lemma run_tracker_Nil: "run_tracker T [] = T"
  by (simp add: run_tracker_def)

lemma run_tracker_Cons:
  "run_tracker T ((dets, fid, now) # bs) = run_tracker (snd (update dets fid now T)) bs"
  by (simp add: run_tracker_def)

lemma run_tracker_append: "run_tracker T (bs @ cs) = run_tracker (run_tracker T bs) cs"
  by (simp add: run_tracker_def)

lemma new_tracker_inv: "tracker_inv (new_tracker opts)"
  by (simp add: tracker_inv_def ids_def new_tracker_def)

lemma update_ids:
  assumes "tracker_inv T"
  shows "tracker_inv (snd (update dets fid now T)) \<and>
         nextTrackId T \<le> nextTrackId (snd (update dets fid now T)) \<and>
         minHits (snd (update dets fid now T)) = minHits T \<and>
         (\<forall>k \<in> set (ids (snd (update dets fid now T))). k \<in> set (ids T) \<or> nextTrackId T \<le> k)"
proof -
  note e = update_effect [OF assms, of dets fid now]
  have "k \<in> set (ids T) \<or> nextTrackId T \<le> k" if "k \<in> set (ids (snd (update dets fid now T)))" for k
  proof -
    from that obtain p where p: "p \<in> set (tracks (snd (update dets fid now T)))" "fst p = k"
      by (auto simp: ids_def)
    with e have "(\<exists>i < length (tracks T). fst p = fst (tracks T ! i)) \<or> nextTrackId T \<le> fst p"
      by blast
    with p(2) show ?thesis by (auto simp: ids_def)
  qed
  with e show ?thesis by simp
qed

lemma run_tracker_ids:
  assumes "tracker_inv T"
  shows "tracker_inv (run_tracker T bs) \<and>
         nextTrackId T \<le> nextTrackId (run_tracker T bs) \<and>
         minHits (run_tracker T bs) = minHits T \<and>
         (\<forall>k \<in> set (ids (run_tracker T bs)). k \<in> set (ids T) \<or> nextTrackId T \<le> k)"
  using assms
proof (induction bs arbitrary: T)
  case Nil
  then show ?case by (simp add: run_tracker_Nil)
next
  case (Cons b bs)
  obtain dets fid now where b: "b = (dets, fid, now)" by (cases b)
  let ?T' = "snd (update dets fid now T)"
  note u = update_ids [OF Cons.prems, of dets fid now]
  then have inv': "tracker_inv ?T'" by simp
  note ih = Cons.IH [OF inv']
  have "k \<in> set (ids T) \<or> nextTrackId T \<le> k" if "k \<in> set (ids (run_tracker ?T' bs))" for k
  proof -
    from ih that have "k \<in> set (ids ?T') \<or> nextTrackId ?T' \<le> k" by blast
    with u show ?thesis by fastforce
  qed
  with ih u show ?case unfolding b run_tracker_Cons by fastforce
qed

lemma tracker_inv_ids:
  assumes "tracker_inv T"
  shows "map id_t (track_values T) = ids T" and "distinct (ids T)"
    and "\<forall>k \<in> set (ids T). k < nextTrackId T"
proof -
  from assms show "map id_t (track_values T) = ids T"
    by (simp add: tracker_inv_def track_values_def ids_def)
  from assms show "distinct (ids T)"
    by (simp add: tracker_inv_def strict_sorted_iff)
  from assms show "\<forall>k \<in> set (ids T). k < nextTrackId T"
    by (auto simp: tracker_inv_def ids_def)
qed

text \<open>
  Claim C5. In every state the tracker reaches from its constructor, the ids of the live tracks
  are strictly increasing in creation order, hence distinct, and lie below \<open>nextTrackId\<close>;
  \<open>createTrack\<close> gives the new track the id \<open>nextTrackId\<close> and increments the counter;
  \<open>pruneOldTracks\<close> removes exactly the tracks that, after ageing, have
  \<open>timeSinceUpdate > maxAge\<close> or \<open>hits < minHits\<close> with \<open>age > 10\<close>; the counter never decreases;
  and in any later state every track whose id had already been assigned carries the id of a
  track that was live then: the id of a removed track is never carried again.
\<close>

theorem trackIds_unique_never_reused:
  "sorted_wrt (<) (map id_t (track_values (run_tracker (new_tracker opts) bs))) \<and>
   distinct (map id_t (track_values (run_tracker (new_tracker opts) bs))) \<and>
   (\<forall>t \<in> set (track_values (run_tracker (new_tracker opts) bs)).
      id_t t < nextTrackId (run_tracker (new_tracker opts) bs)) \<and>
   (\<exists>t. tracks (createTrack det fid now (run_tracker (new_tracker opts) bs)) =
          tracks (run_tracker (new_tracker opts) bs) @ [(nextTrackId (run_tracker (new_tracker opts) bs), t)] \<and>
        id_t t = nextTrackId (run_tracker (new_tracker opts) bs)) \<and>
   nextTrackId (createTrack det fid now (run_tracker (new_tracker opts) bs)) =
     nextTrackId (run_tracker (new_tracker opts) bs) + 1 \<and>
   tracks (pruneOldTracks (run_tracker (new_tracker opts) bs)) =
     filter (\<lambda>p. \<not> too_old (run_tracker (new_tracker opts) bs) (snd p))
       (map (\<lambda>(k, t). (k, t\<lparr> age := age t + 1 \<rparr>)) (tracks (run_tracker (new_tracker opts) bs))) \<and>
   nextTrackId (run_tracker (new_tracker opts) bs) \<le> nextTrackId (run_tracker (new_tracker opts) (bs @ cs)) \<and>
   (\<forall>t \<in> set (track_values (run_tracker (new_tracker opts) (bs @ cs))).
      id_t t < nextTrackId (run_tracker (new_tracker opts) bs) \<longrightarrow>
      id_t t \<in> id_t ` set (track_values (run_tracker (new_tracker opts) bs)))"
proof -
  let ?T = "run_tracker (new_tracker opts) bs"
  let ?T' = "run_tracker (new_tracker opts) (bs @ cs)"
  have inv: "tracker_inv ?T"
    using run_tracker_ids [OF new_tracker_inv] by blast
  note i = tracker_inv_ids [OF inv]
  have a: "sorted_wrt (<) (map id_t (track_values ?T))"
    using inv i(1) by (simp add: tracker_inv_def)
  have b: "distinct (map id_t (track_values ?T))" using i by simp
  have c: "\<forall>t \<in> set (track_values ?T). id_t t < nextTrackId ?T"
  proof
    fix t assume "t \<in> set (track_values ?T)"
    then have "id_t t \<in> set (map id_t (track_values ?T))" by simp
    with i show "id_t t < nextTrackId ?T" by simp
  qed
  have d: "\<exists>t. tracks (createTrack det fid now ?T) = tracks ?T @ [(nextTrackId ?T, t)] \<and>
             id_t t = nextTrackId ?T"
    using createTrack_fresh [of ?T det fid now] inv by (auto simp: tracker_inv_def)
  have e: "nextTrackId (createTrack det fid now ?T) = nextTrackId ?T + 1"
    using createTrack_params by simp
  have f: "tracks (pruneOldTracks ?T) = filter (\<lambda>p. \<not> too_old ?T (snd p))
       (map (\<lambda>(k, t). (k, t\<lparr> age := age t + 1 \<rparr>)) (tracks ?T))"
    using i(2) by (intro pruneOldTracks_tracks) (simp add: ids_def)
  note r = run_tracker_ids [OF inv, of cs, folded run_tracker_append]
  have g: "nextTrackId ?T \<le> nextTrackId ?T'" using r by simp
  have h: "\<forall>t \<in> set (track_values ?T'). id_t t < nextTrackId ?T \<longrightarrow>
             id_t t \<in> id_t ` set (track_values ?T)"
  proof (intro ballI impI)
    fix t assume t: "t \<in> set (track_values ?T')" and lt: "id_t t < nextTrackId ?T"
    from r have inv': "tracker_inv ?T'" by simp
    from t have "id_t t \<in> set (map id_t (track_values ?T'))" by simp
    then have "id_t t \<in> set (ids ?T')" using tracker_inv_ids(1) [OF inv'] by simp
    with r lt have "id_t t \<in> set (ids ?T)" by fastforce
    then show "id_t t \<in> id_t ` set (track_values ?T)" using i(1) by (metis set_map)
  qed
  from a b c d e f g h show ?thesis by blast
qed

theorem trackIds_unique_never_reused_witness:
  "ids (run_tracker (new_tracker default_options) (([person], 1, 0) # idle_cycles)) = [] \<and>
   nextTrackId (run_tracker (new_tracker default_options) (([person], 1, 0) # idle_cycles)) = 2 \<and>
   ids (run_tracker (new_tracker default_options) ((([person], 1, 0) # idle_cycles) @ [([person], 13, 429)])) = [2] \<and>
   1 \<notin> id_t ` set (track_values (run_tracker (new_tracker default_options)
                  ((([person], 1, 0) # idle_cycles) @ [([person], 13, 429)])))"
proof -
  let ?bs = "([person], 1, 0) # idle_cycles"
  have a: "ids (run_tracker (new_tracker default_options) ?bs) = []"
    by code_simp
  have b: "nextTrackId (run_tracker (new_tracker default_options) ?bs) = 2"
    by code_simp
  have c: "ids (run_tracker (new_tracker default_options) (?bs @ [([person], 13, 429)])) = [2]"
    by code_simp
  have e: "track_values (run_tracker (new_tracker default_options) ?bs) = []"
    using a by (simp add: ids_def track_values_def)
  note t = trackIds_unique_never_reused [of default_options ?bs person 0 0 "[([person], 13, 429)]"]
  from t have "\<forall>t \<in> set (track_values (run_tracker (new_tracker default_options) (?bs @ [([person], 13, 429)]))).
      id_t t < nextTrackId (run_tracker (new_tracker default_options) ?bs) \<longrightarrow>
      id_t t \<in> id_t ` set (track_values (run_tracker (new_tracker default_options) ?bs))"
    by blast
  then have "1 \<notin> id_t ` set (track_values (run_tracker (new_tracker default_options) (?bs @ [([person], 13, 429)])))"
    unfolding b e by fastforce
  with a b c show ?thesis by simp
qed

section \<open>Confirmation of tracks\<close>













end
